theory Spec2Isabelle
  imports Main "HOL-Library.Word"
begin

unbundle bit_operations_syntax

section \<open>Low-level queue state (drivers/iommu/arm-smmu-v3.c)\<close>

type_synonym u32 = "32 word"
type_synonym u64 = "64 word"

text \<open>
  \<^verbatim>\<open>struct arm_smmu_ll_queue\<close>: the shadow producer and consumer indices and the
  log2 of the number of entries.  \<^verbatim>\<open>max_n_shift\<close> is a \<^verbatim>\<open>u32\<close> that is only ever used
  as a shift count; it is kept as a natural number.  The expression \<^verbatim>\<open>1 << max_n_shift\<close>
  is an \<^verbatim>\<open>int\<close> that is converted to \<^verbatim>\<open>u32\<close> at every use, which is \<open>push_bit shift 1\<close>
  on 32-bit words for every shift the C expression is defined for (shift below 31).
\<close>

record arm_smmu_ll_queue =
  llq_prod :: u32
  llq_cons :: u32
  max_n_shift :: nat

definition Q_IDX :: "arm_smmu_ll_queue \<Rightarrow> u32 \<Rightarrow> u32" where
  "Q_IDX llq p = p AND (push_bit (max_n_shift llq) 1 - 1)"

definition Q_WRP :: "arm_smmu_ll_queue \<Rightarrow> u32 \<Rightarrow> u32" where
  "Q_WRP llq p = p AND push_bit (max_n_shift llq) 1"

definition Q_OVERFLOW_FLAG :: u32 where
  "Q_OVERFLOW_FLAG = push_bit 31 1"

definition Q_OVF :: "u32 \<Rightarrow> u32" where
  "Q_OVF p = p AND Q_OVERFLOW_FLAG"

definition CMDQ_PROD_OWNED_FLAG :: u32 where
  "CMDQ_PROD_OWNED_FLAG = Q_OVERFLOW_FLAG"

definition queue_has_space :: "arm_smmu_ll_queue \<Rightarrow> u32 \<Rightarrow> bool" where
  "queue_has_space q n =
     (let prod = Q_IDX q (llq_prod q);
          cons = Q_IDX q (llq_cons q);
          space = (if Q_WRP q (llq_prod q) = Q_WRP q (llq_cons q)
                   then push_bit (max_n_shift q) 1 - (prod - cons)
                   else cons - prod)
      in space \<ge> n)"

definition queue_full :: "arm_smmu_ll_queue \<Rightarrow> bool" where
  "queue_full q \<longleftrightarrow>
     Q_IDX q (llq_prod q) = Q_IDX q (llq_cons q) \<and>
     Q_WRP q (llq_prod q) \<noteq> Q_WRP q (llq_cons q)"

definition queue_empty :: "arm_smmu_ll_queue \<Rightarrow> bool" where
  "queue_empty q \<longleftrightarrow>
     Q_IDX q (llq_prod q) = Q_IDX q (llq_cons q) \<and>
     Q_WRP q (llq_prod q) = Q_WRP q (llq_cons q)"

text \<open>
  \<^verbatim>\<open>queue_inc_cons\<close> updates the consumer index in place; the model returns the
  updated queue.
\<close>

definition queue_inc_cons :: "arm_smmu_ll_queue \<Rightarrow> arm_smmu_ll_queue" where
  "queue_inc_cons q =
     (let cons = (Q_WRP q (llq_cons q) OR Q_IDX q (llq_cons q)) + 1
      in q\<lparr>llq_cons := Q_OVF (llq_cons q) OR Q_WRP q cons OR Q_IDX q cons\<rparr>)"

text \<open>
  \<^verbatim>\<open>queue_inc_prod_n\<close> takes the count as a C \<^verbatim>\<open>int\<close>; adding it to a \<^verbatim>\<open>u32\<close>
  converts it modulo \<open>2 ^ 32\<close>, which is \<open>word_of_int\<close>.
\<close>

definition queue_inc_prod_n :: "arm_smmu_ll_queue \<Rightarrow> int \<Rightarrow> u32" where
  "queue_inc_prod_n q n =
     (let prod = (Q_WRP q (llq_prod q) OR Q_IDX q (llq_prod q)) + word_of_int n
      in Q_OVF (llq_prod q) OR Q_WRP q prod OR Q_IDX q prod)"

text \<open>
  The (wrap, position) pair of an index, read as one number below twice the capacity.
\<close>

definition wrp_idx :: "arm_smmu_ll_queue \<Rightarrow> u32 \<Rightarrow> u32" where
  "wrp_idx llq p = Q_WRP llq p OR Q_IDX llq p"


text \<open>
  The number of entries in flight, in the words of the data model: producer minus
  consumer, modulo twice the capacity; the queue is consistent when the consumer has not
  logically passed the producer.  \<open>free_slots\<close> is the wrap-aware count of free slots as
  the specification words it, over unbounded integers.
\<close>

definition queue_used :: "arm_smmu_ll_queue \<Rightarrow> int" where
  "queue_used q =
     (uint (wrp_idx q (llq_prod q)) - uint (wrp_idx q (llq_cons q))) mod 2 ^ Suc (max_n_shift q)"

definition llq_consistent :: "arm_smmu_ll_queue \<Rightarrow> bool" where
  "llq_consistent q \<longleftrightarrow> queue_used q \<le> 2 ^ max_n_shift q"

definition free_slots :: "arm_smmu_ll_queue \<Rightarrow> int" where
  "free_slots q =
     (let prod_pos = uint (Q_IDX q (llq_prod q));
          cons_pos = uint (Q_IDX q (llq_cons q))
      in if Q_WRP q (llq_prod q) = Q_WRP q (llq_cons q)
         then 2 ^ max_n_shift q - (prod_pos - cons_pos)
         else cons_pos - prod_pos)"

section \<open>Bit-field helpers\<close>

text \<open>
  Modelled from the spec: the kernel macros \<^verbatim>\<open>GENMASK\<close>, \<^verbatim>\<open>GENMASK_ULL\<close>, \<^verbatim>\<open>FIELD_PREP\<close>,
  \<^verbatim>\<open>FIELD_GET\<close>, \<^verbatim>\<open>BIT_WORD\<close> and \<^verbatim>\<open>BITS_PER_LONG\<close> come from headers that are not part
  of the sources at hand.  The register-level contract is bit-exact, so they are given
  their usual meaning on a 64-bit machine: \<^verbatim>\<open>GENMASK(h, l)\<close> is the contiguous mask with
  bits \<open>l\<close> to \<open>h\<close> set, \<^verbatim>\<open>FIELD_PREP\<close> shifts a value to the lowest set bit of the mask
  and masks it, \<^verbatim>\<open>FIELD_GET\<close> masks a register and shifts the field down.
\<close>

definition BITS_PER_LONG :: nat where
  "BITS_PER_LONG = 64"

definition BIT_WORD :: "nat \<Rightarrow> nat" where
  "BIT_WORD nr = nr div BITS_PER_LONG"

definition GENMASK :: "nat \<Rightarrow> nat \<Rightarrow> u64" where
  "GENMASK h l = (NOT 0 - push_bit l 1 + 1) AND drop_bit (BITS_PER_LONG - 1 - h) (NOT 0)"

definition GENMASK_ULL :: "nat \<Rightarrow> nat \<Rightarrow> u64" where
  "GENMASK_ULL h l = (NOT 0 - push_bit l 1 + 1) AND drop_bit (64 - 1 - h) (NOT 0)"

definition bf_shf :: "u64 \<Rightarrow> nat" where
  "bf_shf m = length (takeWhile (\<lambda>i. \<not> bit m i) [0..<64])"

definition FIELD_PREP :: "u64 \<Rightarrow> u64 \<Rightarrow> u64" where
  "FIELD_PREP m v = push_bit (bf_shf m) v AND m"

definition FIELD_GET :: "u64 \<Rightarrow> u64 \<Rightarrow> u64" where
  "FIELD_GET m r = drop_bit (bf_shf m) (r AND m)"

definition of_bool64 :: "bool \<Rightarrow> u64" where
  "of_bool64 b = (if b then 1 else 0)"

section \<open>Commands\<close>

text \<open>Error numbers, returned negated as in the kernel.\<close>

definition ENOENT :: int where "ENOENT = 2"
definition ENXIO :: int where "ENXIO = 6"
definition ENOMEM :: int where "ENOMEM = 12"
definition EINVAL :: int where "EINVAL = 22"

definition CMDQ_ENT_DWORDS :: nat where "CMDQ_ENT_DWORDS = 2"

definition CMDQ_CONS_ERR :: u64 where "CMDQ_CONS_ERR = GENMASK 30 24"
definition CMDQ_ERR_CERROR_NONE_IDX :: u64 where "CMDQ_ERR_CERROR_NONE_IDX = 0"
definition CMDQ_ERR_CERROR_ILL_IDX :: u64 where "CMDQ_ERR_CERROR_ILL_IDX = 1"
definition CMDQ_ERR_CERROR_ABT_IDX :: u64 where "CMDQ_ERR_CERROR_ABT_IDX = 2"

definition CMDQ_0_OP :: u64 where "CMDQ_0_OP = GENMASK_ULL 7 0"
definition CMDQ_0_SSV :: u64 where "CMDQ_0_SSV = push_bit 11 1"
definition CMDQ_PREFETCH_0_SID :: u64 where "CMDQ_PREFETCH_0_SID = GENMASK_ULL 63 32"
definition CMDQ_PREFETCH_1_SIZE :: u64 where "CMDQ_PREFETCH_1_SIZE = GENMASK_ULL 4 0"
definition CMDQ_PREFETCH_1_ADDR_MASK :: u64 where "CMDQ_PREFETCH_1_ADDR_MASK = GENMASK_ULL 63 12"
definition CMDQ_CFGI_0_SSID :: u64 where "CMDQ_CFGI_0_SSID = GENMASK_ULL 31 12"
definition CMDQ_CFGI_0_SID :: u64 where "CMDQ_CFGI_0_SID = GENMASK_ULL 63 32"
definition CMDQ_CFGI_1_LEAF :: u64 where "CMDQ_CFGI_1_LEAF = push_bit 0 1"
definition CMDQ_CFGI_1_RANGE :: u64 where "CMDQ_CFGI_1_RANGE = GENMASK_ULL 4 0"
definition CMDQ_TLBI_0_VMID :: u64 where "CMDQ_TLBI_0_VMID = GENMASK_ULL 47 32"
definition CMDQ_TLBI_0_ASID :: u64 where "CMDQ_TLBI_0_ASID = GENMASK_ULL 63 48"
definition CMDQ_TLBI_1_LEAF :: u64 where "CMDQ_TLBI_1_LEAF = push_bit 0 1"
definition CMDQ_TLBI_1_VA_MASK :: u64 where "CMDQ_TLBI_1_VA_MASK = GENMASK_ULL 63 12"
definition CMDQ_TLBI_1_IPA_MASK :: u64 where "CMDQ_TLBI_1_IPA_MASK = GENMASK_ULL 51 12"
definition CMDQ_PRI_0_SSID :: u64 where "CMDQ_PRI_0_SSID = GENMASK_ULL 31 12"
definition CMDQ_PRI_0_SID :: u64 where "CMDQ_PRI_0_SID = GENMASK_ULL 63 32"
definition CMDQ_PRI_1_GRPID :: u64 where "CMDQ_PRI_1_GRPID = GENMASK_ULL 8 0"
definition CMDQ_PRI_1_RESP :: u64 where "CMDQ_PRI_1_RESP = GENMASK_ULL 13 12"
definition CMDQ_RESUME_0_SID :: u64 where "CMDQ_RESUME_0_SID = GENMASK_ULL 63 32"
definition CMDQ_RESUME_0_ACTION_RETRY :: u64 where "CMDQ_RESUME_0_ACTION_RETRY = push_bit 12 1"
definition CMDQ_RESUME_0_ACTION_ABORT :: u64 where "CMDQ_RESUME_0_ACTION_ABORT = push_bit 13 1"
definition CMDQ_RESUME_1_STAG :: u64 where "CMDQ_RESUME_1_STAG = GENMASK_ULL 15 0"
definition CMDQ_SYNC_0_CS :: u64 where "CMDQ_SYNC_0_CS = GENMASK_ULL 13 12"
definition CMDQ_SYNC_0_CS_IRQ :: u64 where "CMDQ_SYNC_0_CS_IRQ = 1"
definition CMDQ_SYNC_0_CS_SEV :: u64 where "CMDQ_SYNC_0_CS_SEV = 2"
definition CMDQ_SYNC_0_MSH :: u64 where "CMDQ_SYNC_0_MSH = GENMASK_ULL 23 22"
definition CMDQ_SYNC_0_MSIATTR :: u64 where "CMDQ_SYNC_0_MSIATTR = GENMASK_ULL 27 24"
definition CMDQ_SYNC_1_MSIADDR_MASK :: u64 where "CMDQ_SYNC_1_MSIADDR_MASK = GENMASK_ULL 51 2"
definition ARM_SMMU_SH_ISH :: u64 where "ARM_SMMU_SH_ISH = 3"
definition ARM_SMMU_MEMATTR_OIWB :: u64 where "ARM_SMMU_MEMATTR_OIWB = 0xf"

definition CMDQ_OP_PREFETCH_CFG :: "8 word" where "CMDQ_OP_PREFETCH_CFG = 0x1"
definition CMDQ_OP_CFGI_STE :: "8 word" where "CMDQ_OP_CFGI_STE = 0x3"
definition CMDQ_OP_CFGI_ALL :: "8 word" where "CMDQ_OP_CFGI_ALL = 0x4"
definition CMDQ_OP_CFGI_CD :: "8 word" where "CMDQ_OP_CFGI_CD = 0x5"
definition CMDQ_OP_CFGI_CD_ALL :: "8 word" where "CMDQ_OP_CFGI_CD_ALL = 0x6"
definition CMDQ_OP_TLBI_NH_ASID :: "8 word" where "CMDQ_OP_TLBI_NH_ASID = 0x11"
definition CMDQ_OP_TLBI_NH_VA :: "8 word" where "CMDQ_OP_TLBI_NH_VA = 0x12"
definition CMDQ_OP_TLBI_EL2_ALL :: "8 word" where "CMDQ_OP_TLBI_EL2_ALL = 0x20"
definition CMDQ_OP_TLBI_EL2_ASID :: "8 word" where "CMDQ_OP_TLBI_EL2_ASID = 0x21"
definition CMDQ_OP_TLBI_EL2_VA :: "8 word" where "CMDQ_OP_TLBI_EL2_VA = 0x22"
definition CMDQ_OP_TLBI_S12_VMALL :: "8 word" where "CMDQ_OP_TLBI_S12_VMALL = 0x28"
definition CMDQ_OP_TLBI_S2_IPA :: "8 word" where "CMDQ_OP_TLBI_S2_IPA = 0x2a"
definition CMDQ_OP_TLBI_NSNH_ALL :: "8 word" where "CMDQ_OP_TLBI_NSNH_ALL = 0x30"
definition CMDQ_OP_PRI_RESP :: "8 word" where "CMDQ_OP_PRI_RESP = 0x41"
definition CMDQ_OP_RESUME :: "8 word" where "CMDQ_OP_RESUME = 0x44"
definition CMDQ_OP_CMD_SYNC :: "8 word" where "CMDQ_OP_CMD_SYNC = 0x46"


definition PRI_RESP_DENY :: int where "PRI_RESP_DENY = 0"
definition PRI_RESP_FAIL :: int where "PRI_RESP_FAIL = 1"
definition PRI_RESP_SUCC :: int where "PRI_RESP_SUCC = 2"

text \<open>
  \<^verbatim>\<open>enum page_response_code\<close> is declared outside the sources at hand; the driver only
  distinguishes the three named codes from anything else.
\<close>

datatype page_response_code =
  IOMMU_PAGE_RESP_SUCCESS | IOMMU_PAGE_RESP_INVALID | IOMMU_PAGE_RESP_FAILURE
  | IOMMU_PAGE_RESP_OTHER int

text \<open>
  \<^verbatim>\<open>struct arm_smmu_cmdq_ent\<close>.  The command-specific fields form a union in C; every
  command reads only the member its opcode selects, so the members are kept side by side.
\<close>

record arm_smmu_cmdq_ent =
  opcode :: "8 word"
  substream_valid :: bool
  prefetch_sid :: u32
  prefetch_size :: "8 word"
  prefetch_addr :: u64
  cfgi_sid :: u32
  cfgi_ssid :: u32
  cfgi_leaf :: bool
  tlbi_asid :: "16 word"
  tlbi_vmid :: "16 word"
  tlbi_leaf :: bool
  tlbi_addr :: u64
  pri_sid :: u32
  pri_ssid :: u32
  pri_grpid :: "16 word"
  pri_resp :: int
  resume_sid :: u32
  resume_stag :: "16 word"
  resume_resp :: page_response_code
  sync_msiaddr :: u64

text \<open>A zero-initialised entry with the given opcode, as a designated initialiser leaves it.\<close>

definition cmdq_ent_init :: "8 word \<Rightarrow> arm_smmu_cmdq_ent" where
  "cmdq_ent_init opc =
     \<lparr>opcode = opc, substream_valid = False,
      prefetch_sid = 0, prefetch_size = 0, prefetch_addr = 0,
      cfgi_sid = 0, cfgi_ssid = 0, cfgi_leaf = False,
      tlbi_asid = 0, tlbi_vmid = 0, tlbi_leaf = False, tlbi_addr = 0,
      pri_sid = 0, pri_ssid = 0, pri_grpid = 0, pri_resp = 0,
      resume_sid = 0, resume_stag = 0, resume_resp = IOMMU_PAGE_RESP_SUCCESS,
      sync_msiaddr = 0\<rparr>"

text \<open>
  \<^verbatim>\<open>arm_smmu_cmdq_build_cmd\<close>: the two command dwords, or the negated error number.
\<close>

definition arm_smmu_cmdq_build_cmd :: "arm_smmu_cmdq_ent \<Rightarrow> int + u64 list" where
  "arm_smmu_cmdq_build_cmd ent =
     (let cmd0 = FIELD_PREP CMDQ_0_OP (ucast (opcode ent)); opc = opcode ent in
      if opc = CMDQ_OP_TLBI_EL2_ALL \<or> opc = CMDQ_OP_TLBI_NSNH_ALL then Inr [cmd0, 0]
      else if opc = CMDQ_OP_PREFETCH_CFG then
        Inr [cmd0 OR FIELD_PREP CMDQ_PREFETCH_0_SID (ucast (prefetch_sid ent)),
             FIELD_PREP CMDQ_PREFETCH_1_SIZE (ucast (prefetch_size ent))
               OR (prefetch_addr ent AND CMDQ_PREFETCH_1_ADDR_MASK)]
      else if opc = CMDQ_OP_CFGI_CD then
        Inr [cmd0 OR FIELD_PREP CMDQ_CFGI_0_SSID (ucast (cfgi_ssid ent))
               OR FIELD_PREP CMDQ_CFGI_0_SID (ucast (cfgi_sid ent)),
             FIELD_PREP CMDQ_CFGI_1_LEAF (of_bool64 (cfgi_leaf ent))]
      else if opc = CMDQ_OP_CFGI_STE then
        Inr [cmd0 OR FIELD_PREP CMDQ_CFGI_0_SID (ucast (cfgi_sid ent)),
             FIELD_PREP CMDQ_CFGI_1_LEAF (of_bool64 (cfgi_leaf ent))]
      else if opc = CMDQ_OP_CFGI_CD_ALL then
        Inr [cmd0 OR FIELD_PREP CMDQ_CFGI_0_SID (ucast (cfgi_sid ent)), 0]
      else if opc = CMDQ_OP_CFGI_ALL then
        Inr [cmd0, FIELD_PREP CMDQ_CFGI_1_RANGE 31]
      else if opc = CMDQ_OP_TLBI_NH_VA \<or> opc = CMDQ_OP_TLBI_EL2_VA then
        Inr [cmd0 OR FIELD_PREP CMDQ_TLBI_0_ASID (ucast (tlbi_asid ent)),
             FIELD_PREP CMDQ_TLBI_1_LEAF (of_bool64 (tlbi_leaf ent))
               OR (tlbi_addr ent AND CMDQ_TLBI_1_VA_MASK)]
      else if opc = CMDQ_OP_TLBI_S2_IPA then
        Inr [cmd0 OR FIELD_PREP CMDQ_TLBI_0_VMID (ucast (tlbi_vmid ent)),
             FIELD_PREP CMDQ_TLBI_1_LEAF (of_bool64 (tlbi_leaf ent))
               OR (tlbi_addr ent AND CMDQ_TLBI_1_IPA_MASK)]
      else if opc = CMDQ_OP_TLBI_NH_ASID then
        Inr [cmd0 OR FIELD_PREP CMDQ_TLBI_0_ASID (ucast (tlbi_asid ent))
               OR FIELD_PREP CMDQ_TLBI_0_VMID (ucast (tlbi_vmid ent)), 0]
      else if opc = CMDQ_OP_TLBI_S12_VMALL then
        Inr [cmd0 OR FIELD_PREP CMDQ_TLBI_0_VMID (ucast (tlbi_vmid ent)), 0]
      else if opc = CMDQ_OP_TLBI_EL2_ASID then
        Inr [cmd0 OR FIELD_PREP CMDQ_TLBI_0_ASID (ucast (tlbi_asid ent)), 0]
      else if opc = CMDQ_OP_PRI_RESP then
        (if pri_resp ent = PRI_RESP_DENY \<or> pri_resp ent = PRI_RESP_FAIL
            \<or> pri_resp ent = PRI_RESP_SUCC
         then Inr [cmd0 OR FIELD_PREP CMDQ_0_SSV (of_bool64 (substream_valid ent))
                     OR FIELD_PREP CMDQ_PRI_0_SSID (ucast (pri_ssid ent))
                     OR FIELD_PREP CMDQ_PRI_0_SID (ucast (pri_sid ent)),
                   FIELD_PREP CMDQ_PRI_1_GRPID (ucast (pri_grpid ent))
                     OR FIELD_PREP CMDQ_PRI_1_RESP (word_of_int (pri_resp ent))]
         else Inl (- EINVAL))
      else if opc = CMDQ_OP_RESUME then
        (case resume_resp ent of
           IOMMU_PAGE_RESP_INVALID \<Rightarrow>
             Inr [cmd0 OR FIELD_PREP CMDQ_RESUME_0_SID (ucast (resume_sid ent))
                    OR CMDQ_RESUME_0_ACTION_ABORT,
                  FIELD_PREP CMDQ_RESUME_1_STAG (ucast (resume_stag ent))]
         | IOMMU_PAGE_RESP_FAILURE \<Rightarrow>
             Inr [cmd0 OR FIELD_PREP CMDQ_RESUME_0_SID (ucast (resume_sid ent))
                    OR CMDQ_RESUME_0_ACTION_ABORT,
                  FIELD_PREP CMDQ_RESUME_1_STAG (ucast (resume_stag ent))]
         | IOMMU_PAGE_RESP_SUCCESS \<Rightarrow>
             Inr [cmd0 OR FIELD_PREP CMDQ_RESUME_0_SID (ucast (resume_sid ent))
                    OR CMDQ_RESUME_0_ACTION_RETRY,
                  FIELD_PREP CMDQ_RESUME_1_STAG (ucast (resume_stag ent))]
         | IOMMU_PAGE_RESP_OTHER _ \<Rightarrow> Inl (- EINVAL))
      else if opc = CMDQ_OP_CMD_SYNC then
        (if sync_msiaddr ent \<noteq> 0
         then Inr [cmd0 OR FIELD_PREP CMDQ_SYNC_0_CS CMDQ_SYNC_0_CS_IRQ
                     OR FIELD_PREP CMDQ_SYNC_0_MSH ARM_SMMU_SH_ISH
                     OR FIELD_PREP CMDQ_SYNC_0_MSIATTR ARM_SMMU_MEMATTR_OIWB,
                   sync_msiaddr ent AND CMDQ_SYNC_1_MSIADDR_MASK]
         else Inr [cmd0 OR FIELD_PREP CMDQ_SYNC_0_CS CMDQ_SYNC_0_CS_SEV
                     OR FIELD_PREP CMDQ_SYNC_0_MSH ARM_SMMU_SH_ISH
                     OR FIELD_PREP CMDQ_SYNC_0_MSIATTR ARM_SMMU_MEMATTR_OIWB,
                   0])
      else Inl (- ENOENT))"


section \<open>Command queue state\<close>

text \<open>
  \<^verbatim>\<open>struct arm_smmu_queue\<close> and \<^verbatim>\<open>struct arm_smmu_cmdq\<close>.  The queue memory behind
  \<^verbatim>\<open>base\<close> is a store from dword offsets to 64-bit values (the CPU is little-endian, so
  \<^verbatim>\<open>cpu_to_le64\<close> is the identity); \<^verbatim>\<open>prod_reg\<close> and \<^verbatim>\<open>cons_reg\<close> hold the current content
  of the two hardware registers.  The valid bitmap is an array of 64-bit words.
\<close>

record arm_smmu_queue =
  q_llq :: arm_smmu_ll_queue
  q_base :: "nat \<Rightarrow> u64"
  q_ent_dwords :: nat
  q_prod_reg :: u32
  q_cons_reg :: u32
  q_batch :: u64

record arm_smmu_cmdq =
  cmdq_q :: arm_smmu_queue
  cmdq_valid_map :: "u64 list"
  cmdq_owner_prod :: u32
  cmdq_lock :: int

definition Q_ENT :: "arm_smmu_queue \<Rightarrow> u32 \<Rightarrow> nat" where
  "Q_ENT q p = unat (Q_IDX (q_llq q) p) * q_ent_dwords q"

text \<open>
  \<^verbatim>\<open>queue_write\<close> copies \<open>n_dwords\<close> dwords from a local buffer into queue memory,
  \<^verbatim>\<open>queue_read\<close> copies them out.  The buffers of the callers below hold
  \<^verbatim>\<open>CMDQ_ENT_DWORDS\<close> dwords, which is what the command queue's \<^verbatim>\<open>ent_dwords\<close> is
  initialised to; the write stops where the source buffer ends.
\<close>

fun queue_write :: "(nat \<Rightarrow> u64) \<Rightarrow> nat \<Rightarrow> u64 list \<Rightarrow> nat \<Rightarrow> (nat \<Rightarrow> u64)" where
  "queue_write m dst src 0 = m"
| "queue_write m dst [] (Suc n) = m"
| "queue_write m dst (x # xs) (Suc n) = queue_write (m(dst := x)) (Suc dst) xs n"

definition queue_read :: "(nat \<Rightarrow> u64) \<Rightarrow> nat \<Rightarrow> nat \<Rightarrow> u64 list" where
  "queue_read m src n_dwords = map (\<lambda>i. m (src + i)) [0..<n_dwords]"

text \<open>Messages written to the kernel log, with the values they print.\<close>

datatype log_entry = Dev_err string "u64 list"

definition cerror_str :: "u64 \<Rightarrow> string" where
  "cerror_str idx =
     (if idx = CMDQ_ERR_CERROR_NONE_IDX then ''No error''
      else if idx = CMDQ_ERR_CERROR_ILL_IDX then ''Illegal command''
      else if idx = CMDQ_ERR_CERROR_ABT_IDX then ''Abort on command fetch''
      else ''Unknown'')"

text \<open>
  \<^verbatim>\<open>arm_smmu_cmdq_skip_err\<close>: returns the command queue after the call and the messages
  logged.  The local \<^verbatim>\<open>cmd\<close> buffer has \<^verbatim>\<open>CMDQ_ENT_DWORDS\<close> entries and all of them are
  dumped.
\<close>

definition arm_smmu_cmdq_skip_err :: "arm_smmu_cmdq \<Rightarrow> arm_smmu_cmdq \<times> log_entry list" where
  "arm_smmu_cmdq_skip_err cmdq =
     (let q = cmdq_q cmdq;
          cons = q_cons_reg q;
          idx = FIELD_GET CMDQ_CONS_ERR (ucast cons);
          cmd_sync = cmdq_ent_init CMDQ_OP_CMD_SYNC;
          lg = [Dev_err (''CMDQ error: '' @ cerror_str idx) [ucast cons]]
      in if idx = CMDQ_ERR_CERROR_ABT_IDX
         then (cmdq, lg @ [Dev_err ''retrying command fetch'' []])
         else if idx = CMDQ_ERR_CERROR_NONE_IDX then (cmdq, lg)
         else
           (let cmd = take CMDQ_ENT_DWORDS (queue_read (q_base q) (Q_ENT q cons) (q_ent_dwords q));
                lg = lg @ [Dev_err ''skipping command in error state:'' cmd]
            in case arm_smmu_cmdq_build_cmd cmd_sync of
                 Inl err \<Rightarrow> (cmdq, lg @ [Dev_err ''failed to convert to CMD_SYNC'' []])
               | Inr cmd \<Rightarrow>
                   (cmdq\<lparr>cmdq_q := q\<lparr>q_base :=
                       queue_write (q_base q) (Q_ENT q cons) cmd (q_ent_dwords q)\<rparr>\<rparr>, lg)))"

section \<open>The valid bitmap\<close>

text \<open>
  \<^verbatim>\<open>__arm_smmu_cmdq_poll_set_valid_map\<close>.  The loop runs until the local producer index
  equals \<open>eprod\<close>, which need not happen for arbitrary arguments, so the model counts
  iterations down from a bound and answers \<open>Out_of_fuel\<close> when the bound is used up (the
  running index \<^verbatim>\<open>llq.prod\<close> is \<open>lprod\<close>, the flag \<^verbatim>\<open>set\<close> is \<open>set_flag\<close>).  In
  poll mode \<^verbatim>\<open>atomic_long_cond_read_relaxed\<close> returns once the masked word equals the
  expected pattern; on a bitmap that no other CPU changes a mismatch means the caller
  keeps waiting, which the model answers with \<open>Spinning\<close>.
\<close>

datatype valid_map_result = Completed "u64 list" | Spinning | Out_of_fuel

definition ULONG_MAX :: u64 where
  "ULONG_MAX = NOT 0"

fun poll_set_valid_map_loop ::
  "nat \<Rightarrow> nat \<Rightarrow> u64 list \<Rightarrow> u32 \<Rightarrow> u32 \<Rightarrow> bool \<Rightarrow> valid_map_result" where
  "poll_set_valid_map_loop 0 shift vm lprod eprod set_flag = Out_of_fuel"
| "poll_set_valid_map_loop (Suc fuel) shift vm lprod eprod set_flag =
     (if lprod = eprod then Completed vm
      else
        (let llq = \<lparr>llq_prod = lprod, llq_cons = 0, max_n_shift = shift\<rparr>;
             ewidx = BIT_WORD (unat (Q_IDX llq eprod));
             ebidx = unat (Q_IDX llq eprod) mod BITS_PER_LONG;
             swidx = BIT_WORD (unat (Q_IDX llq lprod));
             sbidx = unat (Q_IDX llq lprod) mod BITS_PER_LONG;
             limit = (if swidx = ewidx \<and> sbidx < ebidx then ebidx else BITS_PER_LONG);
             mask = GENMASK (limit - 1) sbidx;
             next = queue_inc_prod_n llq (int (limit - sbidx))
         in if set_flag
            then poll_set_valid_map_loop fuel shift (vm[swidx := vm ! swidx XOR mask])
                   next eprod set_flag
            else
              (let valid = (ULONG_MAX + of_bool64 (Q_WRP llq lprod \<noteq> 0)) AND mask
               in if vm ! swidx AND mask = valid
                  then poll_set_valid_map_loop fuel shift vm next eprod set_flag
                  else Spinning)))"

definition arm_smmu_cmdq_poll_set_valid_map ::
  "nat \<Rightarrow> arm_smmu_cmdq \<Rightarrow> u32 \<Rightarrow> u32 \<Rightarrow> bool \<Rightarrow> valid_map_result" where
  "arm_smmu_cmdq_poll_set_valid_map fuel cmdq sprod eprod set_flag =
     poll_set_valid_map_loop fuel (max_n_shift (q_llq (cmdq_q cmdq))) (cmdq_valid_map cmdq)
       sprod eprod set_flag"

definition arm_smmu_cmdq_set_valid_map ::
  "nat \<Rightarrow> arm_smmu_cmdq \<Rightarrow> u32 \<Rightarrow> u32 \<Rightarrow> valid_map_result" where
  "arm_smmu_cmdq_set_valid_map fuel cmdq sprod eprod =
     arm_smmu_cmdq_poll_set_valid_map fuel cmdq sprod eprod True"

definition arm_smmu_cmdq_poll_valid_map ::
  "nat \<Rightarrow> arm_smmu_cmdq \<Rightarrow> u32 \<Rightarrow> u32 \<Rightarrow> valid_map_result" where
  "arm_smmu_cmdq_poll_valid_map fuel cmdq sprod eprod =
     arm_smmu_cmdq_poll_set_valid_map fuel cmdq sprod eprod False"


section \<open>Stream table\<close>

definition STRTAB_SPLIT :: nat where "STRTAB_SPLIT = 8"
definition STRTAB_L1_DESC_DWORDS :: nat where "STRTAB_L1_DESC_DWORDS = 1"
definition STRTAB_L1_DESC_SPAN :: u64 where "STRTAB_L1_DESC_SPAN = GENMASK_ULL 4 0"
definition STRTAB_L1_DESC_L2PTR_MASK :: u64 where "STRTAB_L1_DESC_L2PTR_MASK = GENMASK_ULL 51 6"
definition STRTAB_STE_DWORDS :: nat where "STRTAB_STE_DWORDS = 8"
definition STRTAB_STE_0_V :: u64 where "STRTAB_STE_0_V = push_bit 0 1"
definition STRTAB_STE_0_CFG :: u64 where "STRTAB_STE_0_CFG = GENMASK_ULL 3 1"
definition STRTAB_STE_0_CFG_ABORT :: u64 where "STRTAB_STE_0_CFG_ABORT = 0"
definition STRTAB_STE_0_CFG_BYPASS :: u64 where "STRTAB_STE_0_CFG_BYPASS = 4"
definition STRTAB_STE_0_CFG_S1_TRANS :: u64 where "STRTAB_STE_0_CFG_S1_TRANS = 5"
definition STRTAB_STE_0_CFG_S2_TRANS :: u64 where "STRTAB_STE_0_CFG_S2_TRANS = 6"
definition STRTAB_STE_0_S1FMT :: u64 where "STRTAB_STE_0_S1FMT = GENMASK_ULL 5 4"
definition STRTAB_STE_0_S1CTXPTR_MASK :: u64 where "STRTAB_STE_0_S1CTXPTR_MASK = GENMASK_ULL 51 6"
definition STRTAB_STE_0_S1CDMAX :: u64 where "STRTAB_STE_0_S1CDMAX = GENMASK_ULL 63 59"
definition STRTAB_STE_1_S1DSS :: u64 where "STRTAB_STE_1_S1DSS = GENMASK_ULL 1 0"
definition STRTAB_STE_1_S1DSS_SSID0 :: u64 where "STRTAB_STE_1_S1DSS_SSID0 = 0x2"
definition STRTAB_STE_1_S1C_CACHE_WBRA :: u64 where "STRTAB_STE_1_S1C_CACHE_WBRA = 1"
definition STRTAB_STE_1_S1CIR :: u64 where "STRTAB_STE_1_S1CIR = GENMASK_ULL 3 2"
definition STRTAB_STE_1_S1COR :: u64 where "STRTAB_STE_1_S1COR = GENMASK_ULL 5 4"
definition STRTAB_STE_1_S1CSH :: u64 where "STRTAB_STE_1_S1CSH = GENMASK_ULL 7 6"
definition STRTAB_STE_1_S1STALLD :: u64 where "STRTAB_STE_1_S1STALLD = push_bit 27 1"
definition STRTAB_STE_1_EATS :: u64 where "STRTAB_STE_1_EATS = GENMASK_ULL 29 28"
definition STRTAB_STE_1_EATS_TRANS :: u64 where "STRTAB_STE_1_EATS_TRANS = 1"
definition STRTAB_STE_1_STRW :: u64 where "STRTAB_STE_1_STRW = GENMASK_ULL 31 30"
definition STRTAB_STE_1_STRW_NSEL1 :: u64 where "STRTAB_STE_1_STRW_NSEL1 = 0"
definition STRTAB_STE_1_STRW_EL2 :: u64 where "STRTAB_STE_1_STRW_EL2 = 2"
definition STRTAB_STE_1_SHCFG :: u64 where "STRTAB_STE_1_SHCFG = GENMASK_ULL 45 44"
definition STRTAB_STE_1_SHCFG_INCOMING :: u64 where "STRTAB_STE_1_SHCFG_INCOMING = 1"
definition STRTAB_STE_2_S2VMID :: u64 where "STRTAB_STE_2_S2VMID = GENMASK_ULL 15 0"
definition STRTAB_STE_2_VTCR :: u64 where "STRTAB_STE_2_VTCR = GENMASK_ULL 50 32"
definition STRTAB_STE_2_S2AA64 :: u64 where "STRTAB_STE_2_S2AA64 = push_bit 51 1"
definition STRTAB_STE_2_S2ENDI :: u64 where "STRTAB_STE_2_S2ENDI = push_bit 52 1"
definition STRTAB_STE_2_S2PTW :: u64 where "STRTAB_STE_2_S2PTW = push_bit 54 1"
definition STRTAB_STE_2_S2R :: u64 where "STRTAB_STE_2_S2R = push_bit 58 1"
definition STRTAB_STE_3_S2TTB_MASK :: u64 where "STRTAB_STE_3_S2TTB_MASK = GENMASK_ULL 51 4"

definition ARM_SMMU_FEAT_2_LVL_STRTAB :: u32 where "ARM_SMMU_FEAT_2_LVL_STRTAB = push_bit 0 1"
definition ARM_SMMU_FEAT_STALLS :: u32 where "ARM_SMMU_FEAT_STALLS = push_bit 11 1"
definition ARM_SMMU_FEAT_STALL_FORCE :: u32 where "ARM_SMMU_FEAT_STALL_FORCE = push_bit 13 1"
definition ARM_SMMU_FEAT_E2H :: u32 where "ARM_SMMU_FEAT_E2H = push_bit 15 1"
definition ARM_SMMU_OPT_SKIP_PREFETCH :: u32 where "ARM_SMMU_OPT_SKIP_PREFETCH = push_bit 0 1"

text \<open>
  The module parameter \<^verbatim>\<open>disable_bypass\<close> and the two build-time switches that
  \<^verbatim>\<open>arm_smmu_write_strtab_ent\<close> depends on.
\<close>

record kconfig =
  disable_bypass :: bool
  CONFIG_PCI_ATS :: bool
  BIG_ENDIAN :: bool

text \<open>
  \<^verbatim>\<open>struct arm_smmu_s1_cfg\<close> (the fields of its PASID table configuration that the stream
  table entry takes), \<^verbatim>\<open>struct arm_smmu_s2_cfg\<close> and \<^verbatim>\<open>struct arm_smmu_strtab_ent\<close>; a
  \<^verbatim>\<open>NULL\<close> configuration pointer is \<open>None\<close>.
\<close>

record arm_smmu_s1_cfg =
  tables_base :: u64
  tables_order :: u64
  tables_s1fmt :: u64

record arm_smmu_s2_cfg =
  s2_vmid :: "16 word"
  s2_vttbr :: u64
  s2_vtcr :: u64

record arm_smmu_strtab_ent =
  ste_assigned :: bool
  ste_s1_cfg :: "arm_smmu_s1_cfg option"
  ste_s2_cfg :: "arm_smmu_s2_cfg option"
  ste_can_stall :: bool

text \<open>
  \<^verbatim>\<open>struct arm_smmu_strtab_l1_desc\<close> and \<^verbatim>\<open>struct arm_smmu_strtab_cfg\<close>.  Pointers into
  DMA memory are dword addresses in one store; \<^verbatim>\<open>l2ptr\<close> is \<open>None\<close> while it is \<^verbatim>\<open>NULL\<close>.
\<close>

record arm_smmu_strtab_l1_desc =
  l1_span :: "8 word"
  l1_l2ptr :: "nat option"
  l1_l2ptr_dma :: u64

record arm_smmu_strtab_cfg =
  cfg_strtab :: nat
  cfg_l1_desc :: "nat \<Rightarrow> arm_smmu_strtab_l1_desc"
  cfg_num_l1_ents :: nat

text \<open>The part of \<^verbatim>\<open>struct arm_smmu_device\<close> that stream table maintenance reads.\<close>

record arm_smmu_device =
  smmu_features :: u32
  smmu_options :: u32
  smmu_strtab_cfg :: arm_smmu_strtab_cfg

text \<open>
  What the driver does to the world outside its own structures, in program order: stores
  of a 64-bit value to DMA memory, command lists handed to
  \<^verbatim>\<open>arm_smmu_cmdq_issue_cmdlist\<close> (the dwords, the number of commands and the sync flag),
  coherent allocations and log messages.
\<close>

datatype event =
  Store nat u64
  | Issue_cmdlist "u64 list" nat bool
  | Alloc_coherent nat
  | Log string

record kstate =
  ks_mem :: "nat \<Rightarrow> u64"
  ks_trace :: "event list"

text \<open>Ways in which a call does not return: \<^verbatim>\<open>BUG()\<close> and a \<^verbatim>\<open>NULL\<close> dereference.\<close>

datatype bug = BUG | NULL_DEREF

definition store :: "nat \<Rightarrow> u64 \<Rightarrow> kstate \<Rightarrow> kstate" where
  "store a v s = s\<lparr>ks_mem := (ks_mem s)(a := v), ks_trace := ks_trace s @ [Store a v]\<rparr>"

text \<open>
  Command submission as stream table maintenance sees it: the command list is handed to
  the command queue, which is recorded as one event.  The result of
  \<^verbatim>\<open>arm_smmu_cmdq_issue_sync\<close> is the outcome of the completion wait; the callers below
  discard it.
\<close>

definition arm_smmu_cmdq_issue_cmdlist :: "u64 list \<Rightarrow> nat \<Rightarrow> bool \<Rightarrow> kstate \<Rightarrow> kstate" where
  "arm_smmu_cmdq_issue_cmdlist cmds n sync s =
     s\<lparr>ks_trace := ks_trace s @ [Issue_cmdlist cmds n sync]\<rparr>"

definition arm_smmu_cmdq_issue_cmd :: "arm_smmu_cmdq_ent \<Rightarrow> kstate \<Rightarrow> int \<times> kstate" where
  "arm_smmu_cmdq_issue_cmd ent s =
     (case arm_smmu_cmdq_build_cmd ent of
        Inl err \<Rightarrow> (- EINVAL, s\<lparr>ks_trace := ks_trace s @ [Log ''ignoring unknown CMDQ opcode'']\<rparr>)
      | Inr cmd \<Rightarrow> (0, arm_smmu_cmdq_issue_cmdlist cmd 1 False s))"

definition arm_smmu_cmdq_issue_sync :: "kstate \<Rightarrow> kstate" where
  "arm_smmu_cmdq_issue_sync s = arm_smmu_cmdq_issue_cmdlist [] 0 True s"

definition arm_smmu_sync_ste_for_sid :: "u32 \<Rightarrow> kstate \<Rightarrow> kstate" where
  "arm_smmu_sync_ste_for_sid sid s =
     (let cmd = (cmdq_ent_init CMDQ_OP_CFGI_STE)\<lparr>cfgi_sid := sid, cfgi_leaf := True\<rparr>
      in arm_smmu_cmdq_issue_sync (snd (arm_smmu_cmdq_issue_cmd cmd s)))"


text \<open>
  \<^verbatim>\<open>arm_smmu_write_strtab_ent\<close>, in three parts.  \<open>ste_live_of\<close> is the inspection of the
  current dword 0 that sets \<^verbatim>\<open>ste_live\<close> (or hits \<^verbatim>\<open>BUG\<close>); \<open>write_strtab_ent_s1\<close> and
  \<open>write_strtab_ent_s2\<close> are the two conditional blocks for a stage-1 and a stage-2
  configuration, which extend the value of dword 0 and store the other dwords.
\<close>

definition ste_live_of :: "kconfig \<Rightarrow> u64 \<Rightarrow> bug + bool" where
  "ste_live_of kc val =
     (if val AND STRTAB_STE_0_V \<noteq> 0 then
        (let c = FIELD_GET STRTAB_STE_0_CFG val in
         if c = STRTAB_STE_0_CFG_BYPASS then Inr False
         else if c = STRTAB_STE_0_CFG_S1_TRANS \<or> c = STRTAB_STE_0_CFG_S2_TRANS then Inr True
         else if c = STRTAB_STE_0_CFG_ABORT then
           (if \<not> disable_bypass kc then Inl BUG else Inr False)
         else Inl BUG)
      else Inr False)"

definition write_strtab_ent_s1 ::
  "kconfig \<Rightarrow> arm_smmu_device \<Rightarrow> nat \<Rightarrow> arm_smmu_strtab_ent \<Rightarrow> bool \<Rightarrow> u64 \<times> kstate
     \<Rightarrow> bug + u64 \<times> kstate" where
  "write_strtab_ent_s1 kc smmu dst ste ste_live vs =
     (case ste_s1_cfg ste of
        None \<Rightarrow> Inr vs
      | Some cfg \<Rightarrow>
          (let val = fst vs; s = snd vs;
               strw = (if smmu_features smmu AND ARM_SMMU_FEAT_E2H \<noteq> 0
                       then STRTAB_STE_1_STRW_EL2 else STRTAB_STE_1_STRW_NSEL1)
           in if ste_live then Inl BUG
              else
                (let s = store (dst + 1)
                       (FIELD_PREP STRTAB_STE_1_S1DSS STRTAB_STE_1_S1DSS_SSID0 OR
                        FIELD_PREP STRTAB_STE_1_S1CIR STRTAB_STE_1_S1C_CACHE_WBRA OR
                        FIELD_PREP STRTAB_STE_1_S1COR STRTAB_STE_1_S1C_CACHE_WBRA OR
                        FIELD_PREP STRTAB_STE_1_S1CSH ARM_SMMU_SH_ISH OR
                        (if CONFIG_PCI_ATS kc
                         then FIELD_PREP STRTAB_STE_1_EATS STRTAB_STE_1_EATS_TRANS else 0) OR
                        FIELD_PREP STRTAB_STE_1_STRW strw) s;
                     s = (if smmu_features smmu AND ARM_SMMU_FEAT_STALLS \<noteq> 0 \<and>
                             \<not> (smmu_features smmu AND ARM_SMMU_FEAT_STALL_FORCE \<noteq> 0) \<and>
                             \<not> ste_can_stall ste
                          then store (dst + 1) (ks_mem s (dst + 1) OR STRTAB_STE_1_S1STALLD) s
                          else s);
                     val = val OR
                        ((tables_base cfg AND STRTAB_STE_0_S1CTXPTR_MASK) OR
                         FIELD_PREP STRTAB_STE_0_CFG STRTAB_STE_0_CFG_S1_TRANS OR
                         FIELD_PREP STRTAB_STE_0_S1CDMAX (tables_order cfg) OR
                         FIELD_PREP STRTAB_STE_0_S1FMT (tables_s1fmt cfg))
                 in Inr (val, s))))"

definition write_strtab_ent_s2 ::
  "kconfig \<Rightarrow> nat \<Rightarrow> arm_smmu_strtab_ent \<Rightarrow> bool \<Rightarrow> u64 \<times> kstate \<Rightarrow> bug + u64 \<times> kstate" where
  "write_strtab_ent_s2 kc dst ste ste_live vs =
     (case ste_s2_cfg ste of
        None \<Rightarrow> Inr vs
      | Some cfg \<Rightarrow>
          (let val = fst vs; s = snd vs
           in if ste_live then Inl BUG
              else
                (let s = store (dst + 2)
                       (FIELD_PREP STRTAB_STE_2_S2VMID (ucast (s2_vmid cfg)) OR
                        FIELD_PREP STRTAB_STE_2_VTCR (s2_vtcr cfg) OR
                        (if BIG_ENDIAN kc then STRTAB_STE_2_S2ENDI else 0) OR
                        STRTAB_STE_2_S2PTW OR STRTAB_STE_2_S2AA64 OR STRTAB_STE_2_S2R) s;
                     s = store (dst + 3) (s2_vttbr cfg AND STRTAB_STE_3_S2TTB_MASK) s;
                     val = val OR FIELD_PREP STRTAB_STE_0_CFG STRTAB_STE_0_CFG_S2_TRANS
                 in Inr (val, s))))"

text \<open>
  The entry is the eight dwords at \<open>dst\<close>.  \<open>smmu\<close> is \<open>None\<close> for the \<^verbatim>\<open>NULL\<close> device that
  \<^verbatim>\<open>arm_smmu_init_bypass_stes\<close> passes; the translation branch reads
  \<^verbatim>\<open>smmu->features\<close> and the command queue of the device, which is a \<^verbatim>\<open>NULL\<close>
  dereference then.
\<close>

definition arm_smmu_write_strtab_ent ::
  "kconfig \<Rightarrow> arm_smmu_device option \<Rightarrow> u32 \<Rightarrow> nat \<Rightarrow> arm_smmu_strtab_ent \<Rightarrow> kstate
     \<Rightarrow> bug + kstate" where
  "arm_smmu_write_strtab_ent kc smmu sid dst ste s =
     (let val = ks_mem s dst;
          prefetch_cmd = (cmdq_ent_init CMDQ_OP_PREFETCH_CFG)\<lparr>prefetch_sid := sid\<rparr>
      in case ste_live_of kc val of
           Inl b \<Rightarrow> Inl b
         | Inr ste_live \<Rightarrow>
            (let val = STRTAB_STE_0_V
             in if \<not> ste_assigned ste \<or> \<not> (ste_s1_cfg ste \<noteq> None \<or> ste_s2_cfg ste \<noteq> None)
                then
                  (let val = val OR
                         (if \<not> ste_assigned ste \<and> disable_bypass kc
                          then FIELD_PREP STRTAB_STE_0_CFG STRTAB_STE_0_CFG_ABORT
                          else FIELD_PREP STRTAB_STE_0_CFG STRTAB_STE_0_CFG_BYPASS);
                       s = store dst val s;
                       s = store (dst + 1)
                             (FIELD_PREP STRTAB_STE_1_SHCFG STRTAB_STE_1_SHCFG_INCOMING) s;
                       s = store (dst + 2) 0 s
                   in case smmu of
                        None \<Rightarrow> Inr s
                      | Some sm \<Rightarrow> Inr (arm_smmu_sync_ste_for_sid sid s))
                else
                  (case smmu of
                     None \<Rightarrow> Inl NULL_DEREF
                   | Some sm \<Rightarrow>
                      (case write_strtab_ent_s1 kc sm dst ste ste_live (val, s) of
                         Inl b \<Rightarrow> Inl b
                       | Inr vs1 \<Rightarrow>
                          (case write_strtab_ent_s2 kc dst ste ste_live vs1 of
                             Inl b \<Rightarrow> Inl b
                           | Inr vs2 \<Rightarrow>
                              (let s = arm_smmu_sync_ste_for_sid sid (snd vs2);
                                   s = store dst (fst vs2) s;
                                   s = arm_smmu_sync_ste_for_sid sid s
                               in if \<not> (smmu_options sm AND ARM_SMMU_OPT_SKIP_PREFETCH \<noteq> 0)
                                  then Inr (snd (arm_smmu_cmdq_issue_cmd prefetch_cmd s))
                                  else Inr s))))))"

text \<open>
  \<^verbatim>\<open>arm_smmu_init_bypass_stes\<close>: the loop over \<open>nent\<close> consecutive entries, front to
  back, with the unassigned entry and the \<^verbatim>\<open>NULL\<close> device; the stream ID passed is
  \<open>-1\<close>.
\<close>

fun arm_smmu_init_bypass_stes :: "kconfig \<Rightarrow> nat \<Rightarrow> nat \<Rightarrow> kstate \<Rightarrow> bug + kstate" where
  "arm_smmu_init_bypass_stes kc strtab 0 s = Inr s"
| "arm_smmu_init_bypass_stes kc strtab (Suc nent) s =
     (case arm_smmu_write_strtab_ent kc None (- 1) strtab
             \<lparr>ste_assigned = False, ste_s1_cfg = None, ste_s2_cfg = None, ste_can_stall = False\<rparr> s of
        Inl b \<Rightarrow> Inl b
      | Inr s' \<Rightarrow> arm_smmu_init_bypass_stes kc (strtab + STRTAB_STE_DWORDS) nent s')"

definition arm_smmu_write_strtab_l1_desc ::
  "nat \<Rightarrow> arm_smmu_strtab_l1_desc \<Rightarrow> kstate \<Rightarrow> kstate" where
  "arm_smmu_write_strtab_l1_desc dst desc s =
     store dst (FIELD_PREP STRTAB_L1_DESC_SPAN (ucast (l1_span desc)) OR
                (l1_l2ptr_dma desc AND STRTAB_L1_DESC_L2PTR_MASK)) s"

text \<open>
  \<^verbatim>\<open>dmam_alloc_coherent\<close> with \<^verbatim>\<open>__GFP_ZERO\<close> is the environment's: its answer is a
  parameter, \<open>None\<close> for failure or the CPU address (in dwords) and the bus address of the
  block.  A successful allocation hands out zeroed memory.
\<close>

definition zero_block :: "nat \<Rightarrow> nat \<Rightarrow> kstate \<Rightarrow> kstate" where
  "zero_block p n_dwords s =
     s\<lparr>ks_mem := (\<lambda>a. if p \<le> a \<and> a < p + n_dwords then 0 else ks_mem s a)\<rparr>"

definition ilog2_STRTAB_STE_DWORDS :: nat where
  "ilog2_STRTAB_STE_DWORDS = 3"

text \<open>
  \<^verbatim>\<open>arm_smmu_init_l2_strtab\<close>: the return value, the device with its updated first-level
  descriptors, and the outside world.
\<close>

definition arm_smmu_init_l2_strtab ::
  "kconfig \<Rightarrow> (nat \<times> u64) option \<Rightarrow> arm_smmu_device \<Rightarrow> u32 \<Rightarrow> kstate
     \<Rightarrow> bug + int \<times> arm_smmu_device \<times> kstate" where
  "arm_smmu_init_l2_strtab kc alloc smmu sid s =
     (let cfg = smmu_strtab_cfg smmu;
          idx = unat (drop_bit STRTAB_SPLIT sid);
          desc = cfg_l1_desc cfg idx
      in if l1_l2ptr desc \<noteq> None then Inr (0, smmu, s)
         else
           (let size = 2 ^ (STRTAB_SPLIT + ilog2_STRTAB_STE_DWORDS + 3);
                strtab = cfg_strtab cfg + idx * STRTAB_L1_DESC_DWORDS;
                desc = desc\<lparr>l1_span := of_nat (STRTAB_SPLIT + 1)\<rparr>;
                s = s\<lparr>ks_trace := ks_trace s @ [Alloc_coherent size]\<rparr>
            in case alloc of
                 None \<Rightarrow>
                   Inr (- ENOMEM,
                        smmu\<lparr>smmu_strtab_cfg := cfg\<lparr>cfg_l1_desc := (cfg_l1_desc cfg)(idx := desc)\<rparr>\<rparr>,
                        s\<lparr>ks_trace := ks_trace s @ [Log ''failed to allocate l2 stream table'']\<rparr>)
               | Some (p, dma) \<Rightarrow>
                   (let desc = desc\<lparr>l1_l2ptr := Some p, l1_l2ptr_dma := dma\<rparr>;
                        s = zero_block p (size div 8) s
                    in case arm_smmu_init_bypass_stes kc p (2 ^ STRTAB_SPLIT) s of
                         Inl b \<Rightarrow> Inl b
                       | Inr s \<Rightarrow>
                           Inr (0,
                                smmu\<lparr>smmu_strtab_cfg :=
                                       cfg\<lparr>cfg_l1_desc := (cfg_l1_desc cfg)(idx := desc)\<rparr>\<rparr>,
                                arm_smmu_write_strtab_l1_desc strtab desc s))))"


section \<open>Domains and device attachment\<close>

datatype arm_smmu_domain_stage =
  ARM_SMMU_DOMAIN_S1 | ARM_SMMU_DOMAIN_S2 | ARM_SMMU_DOMAIN_NESTED | ARM_SMMU_DOMAIN_BYPASS

text \<open>
  \<^verbatim>\<open>struct arm_smmu_master_data\<close> with the stream IDs of the device's firmware
  description, and \<^verbatim>\<open>struct arm_smmu_domain\<close>.  SMMU instances, domains and devices are
  referred to by number; the \<^verbatim>\<open>devices\<close> list of a domain holds the devices whose
  \<^verbatim>\<open>master->list\<close> node is linked into it, head first.
\<close>

record arm_smmu_master_data =
  master_smmu :: nat
  master_ste :: arm_smmu_strtab_ent
  master_domain :: "nat option"
  master_ids :: "u32 list"

record arm_smmu_domain =
  dom_smmu :: "nat option"
  dom_stage :: arm_smmu_domain_stage
  dom_s1_cfg :: arm_smmu_s1_cfg
  dom_s2_cfg :: arm_smmu_s2_cfg
  dom_devices :: "nat list"

text \<open>
  The system: the master data of every device that has a firmware description (\<open>None\<close>
  where \<^verbatim>\<open>dev->iommu_fwspec\<close> is \<^verbatim>\<open>NULL\<close>), the domains, the SMMU instances and the outside
  world.
\<close>

record sys =
  sys_masters :: "nat \<Rightarrow> arm_smmu_master_data option"
  sys_domains :: "arm_smmu_domain list"
  sys_smmus :: "nat \<Rightarrow> arm_smmu_device"
  sys_ks :: kstate

definition arm_smmu_get_step_for_sid :: "arm_smmu_device \<Rightarrow> u32 \<Rightarrow> nat option" where
  "arm_smmu_get_step_for_sid smmu sid =
     (let cfg = smmu_strtab_cfg smmu
      in if smmu_features smmu AND ARM_SMMU_FEAT_2_LVL_STRTAB \<noteq> 0 then
           (let idx = unat (drop_bit STRTAB_SPLIT sid) * STRTAB_L1_DESC_DWORDS;
                l1_desc = cfg_l1_desc cfg idx;
                idx2 = unat (sid AND (push_bit STRTAB_SPLIT 1 - 1)) * STRTAB_STE_DWORDS
            in map_option (\<lambda>l2ptr. l2ptr + idx2) (l1_l2ptr l1_desc))
         else Some (cfg_strtab cfg + unat sid * STRTAB_STE_DWORDS))"

text \<open>
  \<^verbatim>\<open>arm_smmu_install_ste_for_dev\<close>: the loop over the stream IDs, skipping an ID that
  occurred earlier in the list.  \<open>prev\<close> holds the IDs already passed.  Writing through the
  entry pointer of an ID whose second-level block is missing dereferences \<^verbatim>\<open>NULL\<close>.
\<close>

fun install_ste_loop ::
  "kconfig \<Rightarrow> arm_smmu_device \<Rightarrow> arm_smmu_strtab_ent \<Rightarrow> u32 list \<Rightarrow> u32 list \<Rightarrow> kstate
     \<Rightarrow> bug + kstate" where
  "install_ste_loop kc smmu ste prev [] s = Inr s"
| "install_ste_loop kc smmu ste prev (sid # rest) s =
     (if sid \<in> set prev then install_ste_loop kc smmu ste (prev @ [sid]) rest s
      else
        (case arm_smmu_get_step_for_sid smmu sid of
           None \<Rightarrow> Inl NULL_DEREF
         | Some step \<Rightarrow>
            (case arm_smmu_write_strtab_ent kc (Some smmu) sid step ste s of
               Inl b \<Rightarrow> Inl b
             | Inr s' \<Rightarrow> install_ste_loop kc smmu ste (prev @ [sid]) rest s')))"

definition arm_smmu_install_ste_for_dev ::
  "kconfig \<Rightarrow> arm_smmu_device \<Rightarrow> arm_smmu_master_data \<Rightarrow> kstate \<Rightarrow> bug + kstate" where
  "arm_smmu_install_ste_for_dev kc smmu master s =
     install_ste_loop kc smmu (master_ste master) [] (master_ids master) s"

text \<open>
  \<^verbatim>\<open>arm_smmu_detach_dev\<close>.  \<^verbatim>\<open>list_del\<close> unlinks the device's node from the list it is
  in, which is the list of \<^verbatim>\<open>master->domain\<close>.  The SVA unbind call is the IOMMU core's
  and touches none of this state.
\<close>

definition arm_smmu_detach_dev :: "kconfig \<Rightarrow> nat \<Rightarrow> sys \<Rightarrow> bug + sys" where
  "arm_smmu_detach_dev kc dev s =
     (case sys_masters s dev of
        None \<Rightarrow> Inl NULL_DEREF
      | Some master \<Rightarrow>
         (let doms = (case master_domain master of
                        None \<Rightarrow> sys_domains s
                      | Some d \<Rightarrow>
                          (sys_domains s)[d := (sys_domains s ! d)
                             \<lparr>dom_devices := remove1 dev (dom_devices (sys_domains s ! d))\<rparr>]);
              master = master\<lparr>master_domain := None,
                              master_ste := (master_ste master)\<lparr>ste_assigned := False\<rparr>\<rparr>;
              s = s\<lparr>sys_domains := doms, sys_masters := (sys_masters s)(dev \<mapsto> master)\<rparr>
          in case arm_smmu_install_ste_for_dev kc (sys_smmus s (master_smmu master)) master
                    (sys_ks s) of
               Inl b \<Rightarrow> Inl b
             | Inr ks \<Rightarrow> Inr (s\<lparr>sys_ks := ks\<rparr>)))"

text \<open>
  \<^verbatim>\<open>arm_smmu_domain_finalise\<close> builds the page tables through the page-table and
  PASID-table code and allocates a VMID, all outside the sources at hand.  Its outcome is
  the environment's answer \<open>fin\<close>: a return value and the stage and stage configuration it
  leaves in the domain.  It touches nothing else in the domain.
\<close>

definition arm_smmu_domain_finalise ::
  "(arm_smmu_domain \<Rightarrow> arm_smmu_master_data \<Rightarrow> int \<times> arm_smmu_domain) \<Rightarrow>
     arm_smmu_domain \<Rightarrow> arm_smmu_master_data \<Rightarrow> int \<times> arm_smmu_domain" where
  "arm_smmu_domain_finalise fin smmu_domain master =
     (let r = fin smmu_domain master
      in (fst r, smmu_domain\<lparr>dom_stage := dom_stage (snd r),
                             dom_s1_cfg := dom_s1_cfg (snd r),
                             dom_s2_cfg := dom_s2_cfg (snd r)\<rparr>))"

text \<open>
  \<^verbatim>\<open>arm_smmu_attach_dev\<close>, up to the \<^verbatim>\<open>out_unlock\<close> label in two steps: \<open>attach_bind\<close> is
  the block under the init mutex that binds the domain to the device's SMMU, the rest
  records the device and installs its stream table entries.  \<open>d\<close> is the domain attached
  to.
\<close>

definition attach_bind ::
  "(arm_smmu_domain \<Rightarrow> arm_smmu_master_data \<Rightarrow> int \<times> arm_smmu_domain) \<Rightarrow>
     arm_smmu_domain \<Rightarrow> arm_smmu_master_data \<Rightarrow> int \<times> arm_smmu_domain" where
  "attach_bind fin smmu_domain master =
     (if dom_smmu smmu_domain = None then
        (let r = arm_smmu_domain_finalise fin
                   (smmu_domain\<lparr>dom_smmu := Some (master_smmu master)\<rparr>) master
         in if fst r \<noteq> 0 then (fst r, (snd r)\<lparr>dom_smmu := None\<rparr>) else (0, snd r))
      else if dom_smmu smmu_domain \<noteq> Some (master_smmu master) then (- ENXIO, smmu_domain)
      else (0, smmu_domain))"

definition arm_smmu_attach_dev ::
  "kconfig \<Rightarrow> (arm_smmu_domain \<Rightarrow> arm_smmu_master_data \<Rightarrow> int \<times> arm_smmu_domain) \<Rightarrow>
     nat \<Rightarrow> nat \<Rightarrow> sys \<Rightarrow> bug + int \<times> sys" where
  "arm_smmu_attach_dev kc fin d dev s =
     (case sys_masters s dev of
        None \<Rightarrow> Inr (- ENOENT, s)
      | Some master0 \<Rightarrow>
         (case (if ste_assigned (master_ste master0) then arm_smmu_detach_dev kc dev s
                else Inr s) of
            Inl b \<Rightarrow> Inl b
          | Inr s \<Rightarrow>
             (case sys_masters s dev of
                None \<Rightarrow> Inl NULL_DEREF
              | Some master \<Rightarrow>
                 (let r = attach_bind fin (sys_domains s ! d) master;
                      smmu_domain = snd r
                  in if fst r \<noteq> 0
                     then Inr (fst r, s\<lparr>sys_domains := (sys_domains s)[d := smmu_domain]\<rparr>)
                     else
                       (let smmu_domain =
                              smmu_domain\<lparr>dom_devices := dev # dom_devices smmu_domain\<rparr>;
                            ste = (master_ste master)\<lparr>ste_assigned := True\<rparr>;
                            ste =
                              (if dom_stage smmu_domain = ARM_SMMU_DOMAIN_BYPASS
                               then ste\<lparr>ste_s1_cfg := None, ste_s2_cfg := None\<rparr>
                               else if dom_stage smmu_domain = ARM_SMMU_DOMAIN_S1
                               then ste\<lparr>ste_s1_cfg := Some (dom_s1_cfg smmu_domain),
                                        ste_s2_cfg := None\<rparr>
                               else ste\<lparr>ste_s1_cfg := None,
                                        ste_s2_cfg := Some (dom_s2_cfg smmu_domain)\<rparr>);
                            master = master\<lparr>master_ste := ste, master_domain := Some d\<rparr>;
                            s = s\<lparr>sys_domains := (sys_domains s)[d := smmu_domain],
                                  sys_masters := (sys_masters s)(dev \<mapsto> master)\<rparr>
                        in case arm_smmu_install_ste_for_dev kc
                                  (sys_smmus s (master_smmu master)) master (sys_ks s) of
                             Inl b \<Rightarrow> Inl b
                           | Inr ks \<Rightarrow> Inr (0, s\<lparr>sys_ks := ks\<rparr>))))))"

text \<open>
  The domains whose device list holds a device, and the consistency of a device's
  attachment: it is assigned exactly when it has a domain, its domain exists, and the
  lists that hold it are that one list, once.
\<close>

definition attached_domains :: "sys \<Rightarrow> nat \<Rightarrow> nat list" where
  "attached_domains s dev =
     filter (\<lambda>d. dev \<in> set (dom_devices (sys_domains s ! d))) [0..<length (sys_domains s)]"

definition attach_consistent :: "sys \<Rightarrow> nat \<Rightarrow> bool" where
  "attach_consistent s dev =
     (case sys_masters s dev of
        None \<Rightarrow> True
      | Some master \<Rightarrow>
          ste_assigned (master_ste master) = (master_domain master \<noteq> None) \<and>
          (case master_domain master of
             None \<Rightarrow> attached_domains s dev = []
           | Some d \<Rightarrow> d < length (sys_domains s) \<and> attached_domains s dev = [d] \<and>
                       count_list (dom_devices (sys_domains s ! d)) dev = 1))"

section \<open>Values and states used in the statements below\<close>

text \<open>
  Dword 0 of the CMD_SYNC that \<^verbatim>\<open>arm_smmu_cmdq_build_cmd\<close> builds without an MSI address
  (opcode \<open>0x46\<close>, completion signal SEV, inner shareable, write-back attributes), and a
  command queue of 64 entries whose memory holds \<open>0x1111\<close> everywhere, with the hardware
  consumer register as given.
\<close>

definition CMD_SYNC_dword0 :: u64 where
  "CMD_SYNC_dword0 = 0x0FC02046"

definition example_err_cmdq :: "u32 \<Rightarrow> arm_smmu_cmdq" where
  "example_err_cmdq cons =
     \<lparr>cmdq_q = \<lparr>q_llq = \<lparr>llq_prod = 5, llq_cons = 0, max_n_shift = 6\<rparr>,
                 q_base = (\<lambda>a. 0x1111), q_ent_dwords = 2,
                 q_prod_reg = 5, q_cons_reg = cons, q_batch = 0\<rparr>,
      cmdq_valid_map = [0x1F], cmdq_owner_prod = 5, cmdq_lock = 0\<rparr>"





text \<open>
  A configuration with bypass disabled, an SMMU without features or options and without
  second-level tables, a stage-1 entry, and an outside world of zeroed memory.
\<close>

definition example_kc :: kconfig where
  "example_kc = \<lparr>disable_bypass = True, CONFIG_PCI_ATS = False, BIG_ENDIAN = False\<rparr>"

definition example_smmu :: arm_smmu_device where
  "example_smmu =
     \<lparr>smmu_features = 0, smmu_options = 0,
      smmu_strtab_cfg = \<lparr>cfg_strtab = 0,
         cfg_l1_desc = (\<lambda>i. \<lparr>l1_span = 0, l1_l2ptr = None, l1_l2ptr_dma = 0\<rparr>),
         cfg_num_l1_ents = 0\<rparr>\<rparr>"


definition example_ks :: kstate where
  "example_ks = \<lparr>ks_mem = (\<lambda>a. 0), ks_trace = []\<rparr>"

text \<open>
  The bypass/abort configuration of an unassigned entry: dword 0 and the three stores that
  write it at address \<open>a\<close>; the memory of a block of \<open>nent\<close> entries at \<open>p\<close> after each
  entry got these stores; and the first-level descriptor for a block at bus address
  \<open>dma\<close>.
\<close>

definition bypass_ste_dword0 :: "kconfig \<Rightarrow> u64" where
  "bypass_ste_dword0 kc =
     STRTAB_STE_0_V OR
       (if disable_bypass kc then FIELD_PREP STRTAB_STE_0_CFG STRTAB_STE_0_CFG_ABORT
        else FIELD_PREP STRTAB_STE_0_CFG STRTAB_STE_0_CFG_BYPASS)"

definition bypass_ste_stores :: "kconfig \<Rightarrow> nat \<Rightarrow> event list" where
  "bypass_ste_stores kc a =
     [Store a (bypass_ste_dword0 kc),
      Store (a + 1) (FIELD_PREP STRTAB_STE_1_SHCFG STRTAB_STE_1_SHCFG_INCOMING),
      Store (a + 2) 0]"

definition bypass_block_mem :: "kconfig \<Rightarrow> nat \<Rightarrow> nat \<Rightarrow> (nat \<Rightarrow> u64) \<Rightarrow> (nat \<Rightarrow> u64)" where
  "bypass_block_mem kc p nent m =
     (\<lambda>a. if p \<le> a \<and> a < p + STRTAB_STE_DWORDS * nent then
             (if (a - p) mod STRTAB_STE_DWORDS = 0 then bypass_ste_dword0 kc
              else if (a - p) mod STRTAB_STE_DWORDS = 1
              then FIELD_PREP STRTAB_STE_1_SHCFG STRTAB_STE_1_SHCFG_INCOMING
              else if (a - p) mod STRTAB_STE_DWORDS = 2 then 0
              else m a)
           else m a)"

definition l1_desc_dword :: "u64 \<Rightarrow> u64" where
  "l1_desc_dword dma =
     FIELD_PREP STRTAB_L1_DESC_SPAN (ucast (of_nat (STRTAB_SPLIT + 1) :: 8 word)) OR
     (dma AND STRTAB_L1_DESC_L2PTR_MASK)"

definition example_master :: arm_smmu_master_data where
  "example_master =
     \<lparr>master_smmu = 0,
      master_ste = \<lparr>ste_assigned = True, ste_s1_cfg = None, ste_s2_cfg = None,
                    ste_can_stall = False\<rparr>,
      master_domain = Some 0, master_ids = [5]\<rparr>"

definition example_domains :: "arm_smmu_domain list" where
  "example_domains =
     [\<lparr>dom_smmu = Some 0, dom_stage = ARM_SMMU_DOMAIN_BYPASS,
       dom_s1_cfg = \<lparr>tables_base = 0, tables_order = 0, tables_s1fmt = 0\<rparr>,
       dom_s2_cfg = \<lparr>s2_vmid = 0, s2_vttbr = 0, s2_vtcr = 0\<rparr>,
       dom_devices = [7]\<rparr>,
      \<lparr>dom_smmu = Some 0, dom_stage = ARM_SMMU_DOMAIN_S1,
       dom_s1_cfg = \<lparr>tables_base = 0x1000, tables_order = 0, tables_s1fmt = 0\<rparr>,
       dom_s2_cfg = \<lparr>s2_vmid = 0, s2_vttbr = 0, s2_vtcr = 0\<rparr>,
       dom_devices = [3]\<rparr>]"

definition example_sys :: sys where
  "example_sys =
     \<lparr>sys_masters = (\<lambda>dev. if dev = 7 then Some example_master else None),
      sys_domains = example_domains,
      sys_smmus = (\<lambda>i. example_smmu),
      sys_ks = example_ks\<rparr>"

definition example_fin :: "arm_smmu_domain \<Rightarrow> arm_smmu_master_data \<Rightarrow> int \<times> arm_smmu_domain" where
  "example_fin dmn master = (0, dmn)"

definition valid_map_bit :: "u64 list \<Rightarrow> nat \<Rightarrow> bool" where
  "valid_map_bit vm i = bit (vm ! BIT_WORD i) (i mod BITS_PER_LONG)"

definition cmdq_llq :: "nat \<Rightarrow> u32 \<Rightarrow> arm_smmu_ll_queue" where
  "cmdq_llq shift p = \<lparr>llq_prod = p, llq_cons = 0, max_n_shift = shift\<rparr>"

definition slot_valid :: "nat \<Rightarrow> u64 list \<Rightarrow> u32 \<Rightarrow> bool" where
  "slot_valid shift vm p \<longleftrightarrow>
     valid_map_bit vm (unat (Q_IDX (cmdq_llq shift p) p)) = (Q_WRP (cmdq_llq shift p) p = 0)"

definition prod_add :: "nat \<Rightarrow> u32 \<Rightarrow> nat \<Rightarrow> u32" where
  "prod_add shift p k = queue_inc_prod_n (cmdq_llq shift p) (int k)"

definition prod_wf :: "nat \<Rightarrow> u32 \<Rightarrow> bool" where
  "prod_wf shift p \<longleftrightarrow> p = (Q_OVF p OR wrp_idx (cmdq_llq shift p) p)"

definition chunk_limit :: "nat \<Rightarrow> nat \<Rightarrow> nat" where
  "chunk_limit ip ie =
     (if ip div 64 = ie div 64 \<and> ip mod 64 < ie mod 64 then ie mod 64 else 64)"

definition in_rng :: "nat \<Rightarrow> nat \<Rightarrow> nat \<Rightarrow> nat \<Rightarrow> bool" where
  "in_rng C P n j \<longleftrightarrow> (\<exists>i<n. (P + i) mod C = j)"

definition pos :: "nat \<Rightarrow> u32 \<Rightarrow> nat" where
  "pos shift p = unat p mod 2 ^ Suc shift"

definition example_vm_cmdq :: arm_smmu_cmdq where
  "example_vm_cmdq =
     \<lparr>cmdq_q = \<lparr>q_llq = \<lparr>llq_prod = 67, llq_cons = 0, max_n_shift = 6\<rparr>,
                 q_base = (\<lambda>a. 0), q_ent_dwords = 2,
                 q_prod_reg = 60, q_cons_reg = 0, q_batch = 0\<rparr>,
      cmdq_valid_map = [7], cmdq_owner_prod = 60, cmdq_lock = 0\<rparr>"

section \<open>Queue index arithmetic\<close>

lemma word_take_bit_add_left: "take_bit n (take_bit n a + b) = take_bit n (a + (b::'a::len word))"
proof -
  let ?L = "LENGTH('a)"
  let ?m = "min n ?L"
  have "unat (take_bit n (take_bit n a + b)) = take_bit ?m (take_bit n (unat a) + unat b)"
    by (simp add: unsigned_take_bit_eq unat_word_ariths flip: take_bit_eq_mod)
  also have "\<dots> = take_bit ?m (take_bit ?m (take_bit n (unat a)) + take_bit ?m (unat b))"
    by (simp only: take_bit_add)
  also have "\<dots> = take_bit ?m (take_bit ?m (unat a) + take_bit ?m (unat b))"
    by simp
  also have "\<dots> = take_bit ?m (unat a + unat b)"
    by (simp only: take_bit_add)
  also have "\<dots> = unat (take_bit n (a + b))"
    by (simp add: unsigned_take_bit_eq unat_word_ariths flip: take_bit_eq_mod)
  finally show ?thesis by (simp add: word_unat_eq_iff)
qed

lemma Q_IDX_mask: "Q_IDX q p = take_bit (max_n_shift q) p"
  by (simp add: Q_IDX_def mask_eq_exp_minus_1 push_bit_eq_mult take_bit_eq_mask)

lemma Q_WRP_exp: "Q_WRP q p = p AND 2 ^ max_n_shift q"
  by (simp add: Q_WRP_def push_bit_eq_mult)

lemma bit_Q_OVERFLOW_FLAG: "bit Q_OVERFLOW_FLAG n \<longleftrightarrow> n = 31"
proof -
  have e: "Q_OVERFLOW_FLAG = (2::u32) ^ 31" by (simp add: Q_OVERFLOW_FLAG_def)
  have "bit ((2::u32) ^ 31) n \<longleftrightarrow> n = 31"
    by (simp only: bit_exp_iff possible_bit_word) auto
  then show ?thesis by (simp only: e)
qed

lemma wrp_idx_take_bit: "wrp_idx q p = take_bit (Suc (max_n_shift q)) p"
  unfolding wrp_idx_def Q_WRP_exp Q_IDX_mask
  by (rule bit_eqI) (auto simp add: bit_simps)

lemma bit_Q_OVF: "bit (Q_OVF p) n \<longleftrightarrow> n = 31 \<and> bit p 31"
  by (auto simp add: Q_OVF_def bit_simps bit_Q_OVERFLOW_FLAG)

lemma queue_inc_prod_n_alt:
  "queue_inc_prod_n q n = Q_OVF (llq_prod q) OR take_bit (Suc (max_n_shift q)) (llq_prod q + word_of_int n)"
proof -
  have "queue_inc_prod_n q n = Q_OVF (llq_prod q) OR wrp_idx q (wrp_idx q (llq_prod q) + word_of_int n)"
    by (simp add: queue_inc_prod_n_def wrp_idx_def Let_def or.assoc)
  also have "wrp_idx q (wrp_idx q (llq_prod q) + word_of_int n) = take_bit (Suc (max_n_shift q)) (llq_prod q + word_of_int n)"
    unfolding wrp_idx_take_bit by (rule word_take_bit_add_left)
  finally show ?thesis .
qed

lemma queue_inc_cons_alt:
  "llq_cons (queue_inc_cons q) = Q_OVF (llq_cons q) OR take_bit (Suc (max_n_shift q)) (llq_cons q + 1)"
proof -
  have "llq_cons (queue_inc_cons q) = Q_OVF (llq_cons q) OR wrp_idx q (wrp_idx q (llq_cons q) + 1)"
    by (simp add: queue_inc_cons_def wrp_idx_def Let_def or.assoc)
  also have "wrp_idx q (wrp_idx q (llq_cons q) + 1) = take_bit (Suc (max_n_shift q)) (llq_cons q + 1)"
    unfolding wrp_idx_take_bit by (rule word_take_bit_add_left)
  finally show ?thesis .
qed

lemma Q_OVF_or_take_bit:
  assumes "s < 31"
  shows "Q_OVF (Q_OVF p OR take_bit (Suc s) x) = Q_OVF p"
  using assms
  by (intro bit_eqI) (auto simp add: bit_Q_OVF bit_or_iff bit_take_bit_iff)

lemma wrp_idx_or_take_bit:
  assumes "max_n_shift q < 31"
  shows "wrp_idx q (Q_OVF p OR take_bit (Suc (max_n_shift q)) x) = take_bit (Suc (max_n_shift q)) x"
  unfolding wrp_idx_take_bit using assms
  by (intro bit_eqI) (auto simp add: bit_Q_OVF bit_or_iff bit_take_bit_iff)

lemma take_bit_add_right_int:
  fixes a b :: int
  assumes "m \<le> k"
  shows "take_bit m (a + take_bit k b) = take_bit m (a + b)"
proof -
  have "take_bit m (a + take_bit k b) = take_bit m (take_bit m a + take_bit m (take_bit k b))"
    by (simp only: take_bit_add)
  also have "take_bit m (take_bit k b) = take_bit m b"
    using assms by (simp add: min_def)
  also have "take_bit m (take_bit m a + take_bit m b) = take_bit m (a + b)"
    by (simp only: take_bit_add)
  finally show ?thesis .
qed

lemma uint_wrp_idx_add:
  assumes "s < 31"
  shows "uint (take_bit (Suc s) (p + word_of_int n :: u32)) = (uint (take_bit (Suc s) p) + n) mod 2 ^ Suc s"
proof -
  have le: "Suc s \<le> 32" using assms by simp
  have "uint (take_bit (Suc s) (p + word_of_int n :: u32))
          = take_bit (Suc s) (take_bit 32 (uint p + take_bit 32 n))"
    by (simp only: unsigned_take_bit_eq uint_word_arith_bintrs uint_word_of_int_eq) simp
  also have "\<dots> = take_bit (Suc s) (uint p + take_bit 32 n)"
    using le by (simp only: take_bit_take_bit min.absorb1)
  also have "\<dots> = take_bit (Suc s) (uint p + n)"
    using le by (rule take_bit_add_right_int)
  also have "\<dots> = take_bit (Suc s) (n + uint p)"
    by (simp only: add.commute)
  also have "\<dots> = take_bit (Suc s) (n + take_bit (Suc s) (uint p))"
    by (rule take_bit_add_right_int [symmetric]) simp
  also have "\<dots> = take_bit (Suc s) (uint (take_bit (Suc s) p) + n)"
    by (simp only: unsigned_take_bit_eq add.commute)
  also have "\<dots> = (uint (take_bit (Suc s) p) + n) mod 2 ^ Suc s"
    by (rule take_bit_eq_mod)
  finally show ?thesis .
qed


lemma Q_WRP_eq_0_iff: "Q_WRP q p = 0 \<longleftrightarrow> \<not> bit p (max_n_shift q)"
  unfolding Q_WRP_exp by (rule and_exp_eq_0_iff_not_bit)

lemma Q_WRP_cases: "Q_WRP q p = (if bit p (max_n_shift q) then 2 ^ max_n_shift q else 0)"
  unfolding Q_WRP_exp
  by (rule bit_eqI) (auto simp add: bit_simps)

lemma Q_WRP_eq_iff:
  assumes "max_n_shift q < 31"
  shows "Q_WRP q p = Q_WRP q c \<longleftrightarrow> (bit p (max_n_shift q) = bit c (max_n_shift q))"
proof -
  have "(2::u32) ^ max_n_shift q \<noteq> 0" using assms by simp
  then show ?thesis by (auto simp add: Q_WRP_cases)
qed

lemma uint_Q_IDX_bounds: "0 \<le> uint (Q_IDX q p)" "uint (Q_IDX q p) < 2 ^ max_n_shift q"
  unfolding Q_IDX_mask by (simp_all add: unsigned_take_bit_eq)

lemma Q_IDX_eq_iff: "Q_IDX q p = Q_IDX q c \<longleftrightarrow> uint (Q_IDX q p) = uint (Q_IDX q c)"
  by (simp add: word_uint_eq_iff)

lemma uint_wrp_idx_decomp:
  "uint (wrp_idx q p) = (if bit p (max_n_shift q) then 2 ^ max_n_shift q else 0) + uint (Q_IDX q p)"
proof -
  have "uint (wrp_idx q p) = take_bit (Suc (max_n_shift q)) (uint p)"
    by (simp only: wrp_idx_take_bit unsigned_take_bit_eq)
  also have "\<dots> = 2 ^ max_n_shift q * of_bool (bit (uint p) (max_n_shift q)) + take_bit (max_n_shift q) (uint p)"
    by (rule take_bit_Suc_from_most)
  also have "take_bit (max_n_shift q) (uint p) = uint (Q_IDX q p)"
    by (simp only: Q_IDX_mask unsigned_take_bit_eq)
  finally show ?thesis by (auto simp add: bit_uint_iff dest: bit_imp_le_length)
qed

lemma mod_twice_cases:
  fixes x c :: int
  assumes "0 < c" "- 2 * c \<le> x" "x < 2 * c"
  shows "x mod (2 * c) = (if x < 0 then x + 2 * c else x)"
proof (cases "x < 0")
  case True
  then have "(x + 2 * c) mod (2 * c) = x + 2 * c"
    using assms by (intro mod_pos_pos_trivial) auto
  then show ?thesis using True by (simp add: mod_simps)
next
  case False
  then show ?thesis using assms by simp
qed

lemma queue_used_cases:
  "queue_used q =
    (let c = 2 ^ max_n_shift q;
         ip = uint (Q_IDX q (llq_prod q)); ic = uint (Q_IDX q (llq_cons q));
         wp = bit (llq_prod q) (max_n_shift q); wc = bit (llq_cons q) (max_n_shift q)
     in if wp = wc then (if ic \<le> ip then ip - ic else 2 * c + ip - ic)
        else c + ip - ic)"
proof -
  define c :: int where "c = 2 ^ max_n_shift q"
  define ip where "ip = uint (Q_IDX q (llq_prod q))"
  define ic where "ic = uint (Q_IDX q (llq_cons q))"
  have c: "0 < c" by (simp add: c_def)
  have b: "0 \<le> ip" "ip < c" "0 \<le> ic" "ic < c"
    using uint_Q_IDX_bounds by (simp_all add: ip_def ic_def c_def)
  have p2: "(2::int) ^ Suc (max_n_shift q) = 2 * c" by (simp add: c_def)
  show ?thesis
    unfolding queue_used_def uint_wrp_idx_decomp p2 Let_def
    unfolding c_def [symmetric] ip_def [symmetric] ic_def [symmetric]
    using c b by (auto simp add: mod_twice_cases)
qed


text \<open>
  Claim C10.  For a queue whose shift is below 31, \<^verbatim>\<open>queue_inc_prod_n\<close> (for every
  starting index and every count) and \<^verbatim>\<open>queue_inc_cons\<close> leave the overflow bit of the
  index, which is the command queue's OWNED flag, as it was, and advance the
  (wrap, position) pair modulo twice the capacity; \<^verbatim>\<open>queue_inc_cons\<close> changes nothing
  but the consumer index.
\<close>

theorem queue_inc_keeps_overflow_flag:
  assumes "max_n_shift q < 31"
  shows "Q_OVF (queue_inc_prod_n q n) = Q_OVF (llq_prod q) \<and>
         queue_inc_prod_n q n AND CMDQ_PROD_OWNED_FLAG = llq_prod q AND CMDQ_PROD_OWNED_FLAG \<and>
         uint (wrp_idx q (queue_inc_prod_n q n)) =
           (uint (wrp_idx q (llq_prod q)) + n) mod 2 ^ Suc (max_n_shift q) \<and>
         Q_OVF (llq_cons (queue_inc_cons q)) = Q_OVF (llq_cons q) \<and>
         uint (wrp_idx q (llq_cons (queue_inc_cons q))) =
           (uint (wrp_idx q (llq_cons q)) + 1) mod 2 ^ Suc (max_n_shift q) \<and>
         llq_prod (queue_inc_cons q) = llq_prod q \<and>
         max_n_shift (queue_inc_cons q) = max_n_shift q"
proof -
  have 1: "Q_OVF (queue_inc_prod_n q n) = Q_OVF (llq_prod q)"
    unfolding queue_inc_prod_n_alt using assms by (rule Q_OVF_or_take_bit)
  have 2: "uint (wrp_idx q (queue_inc_prod_n q n)) =
           (uint (wrp_idx q (llq_prod q)) + n) mod 2 ^ Suc (max_n_shift q)"
    unfolding queue_inc_prod_n_alt wrp_idx_or_take_bit [OF assms]
    unfolding wrp_idx_take_bit using assms by (rule uint_wrp_idx_add)
  have 3: "Q_OVF (llq_cons (queue_inc_cons q)) = Q_OVF (llq_cons q)"
    unfolding queue_inc_cons_alt using assms by (rule Q_OVF_or_take_bit)
  have "uint (wrp_idx q (llq_cons (queue_inc_cons q))) =
           uint (take_bit (Suc (max_n_shift q)) (llq_cons q + word_of_int 1))"
    unfolding queue_inc_cons_alt wrp_idx_or_take_bit [OF assms] by simp
  also have "\<dots> = (uint (take_bit (Suc (max_n_shift q)) (llq_cons q)) + 1) mod 2 ^ Suc (max_n_shift q)"
    using assms by (rule uint_wrp_idx_add)
  finally have 4: "uint (wrp_idx q (llq_cons (queue_inc_cons q))) =
           (uint (wrp_idx q (llq_cons q)) + 1) mod 2 ^ Suc (max_n_shift q)"
    unfolding wrp_idx_take_bit .
  have 5: "llq_prod (queue_inc_cons q) = llq_prod q" "max_n_shift (queue_inc_cons q) = max_n_shift q"
    by (simp_all add: queue_inc_cons_def Let_def)
  from 1 have 6: "queue_inc_prod_n q n AND CMDQ_PROD_OWNED_FLAG = llq_prod q AND CMDQ_PROD_OWNED_FLAG"
    by (simp add: Q_OVF_def CMDQ_PROD_OWNED_FLAG_def)
  from 1 2 3 4 5 6 show ?thesis by blast
qed

theorem queue_inc_keeps_overflow_flag_witness:
  "max_n_shift \<lparr>llq_prod = 0x80000007, llq_cons = 0x80000003, max_n_shift = 2\<rparr> < 31 \<and>
   queue_inc_prod_n \<lparr>llq_prod = 0x80000007, llq_cons = 0x80000003, max_n_shift = 2\<rparr> 3 = 0x80000002 \<and>
   Q_OVF (queue_inc_prod_n \<lparr>llq_prod = 0x80000007, llq_cons = 0x80000003, max_n_shift = 2\<rparr> 3) = 0x80000000 \<and>
   llq_cons (queue_inc_cons \<lparr>llq_prod = 0x80000007, llq_cons = 0x80000003, max_n_shift = 2\<rparr>) = 0x80000004"
  using queue_inc_keeps_overflow_flag [of "\<lparr>llq_prod = 0x80000007, llq_cons = 0x80000003, max_n_shift = 2\<rparr>" 3]
  by (simp add: queue_inc_prod_n_def queue_inc_cons_def Q_OVF_def Q_WRP_def Q_IDX_def Q_OVERFLOW_FLAG_def Let_def)

text \<open>
  Claim C6, as amended.  \<^verbatim>\<open>queue_full\<close> holds exactly when the position indices are
  equal and the wrap bits differ, which is when a full capacity of entries is in flight;
  \<^verbatim>\<open>queue_empty\<close> holds exactly when both are equal, which is when nothing is in flight.
  The two never hold together, and one of them holds exactly when the position indices
  are equal.
\<close>

theorem queue_full_empty:
  assumes "max_n_shift q < 31"
  shows "(queue_full q \<longleftrightarrow> queue_used q = 2 ^ max_n_shift q) \<and>
         (queue_empty q \<longleftrightarrow> queue_used q = 0) \<and>
         \<not> (queue_full q \<and> queue_empty q) \<and>
         (queue_full q \<or> queue_empty q \<longleftrightarrow> Q_IDX q (llq_prod q) = Q_IDX q (llq_cons q))"
proof -
  define c :: int where "c = 2 ^ max_n_shift q"
  define ip where "ip = uint (Q_IDX q (llq_prod q))"
  define ic where "ic = uint (Q_IDX q (llq_cons q))"
  have c: "0 < c" by (simp add: c_def)
  have b: "0 \<le> ip" "ip < c" "0 \<le> ic" "ic < c"
    using uint_Q_IDX_bounds by (simp_all add: ip_def ic_def c_def)
  have u: "queue_used q =
     (if bit (llq_prod q) (max_n_shift q) = bit (llq_cons q) (max_n_shift q)
      then (if ic \<le> ip then ip - ic else 2 * c + ip - ic) else c + ip - ic)"
    unfolding queue_used_cases Let_def c_def ip_def ic_def ..
  have f: "queue_full q \<longleftrightarrow> ip = ic \<and> bit (llq_prod q) (max_n_shift q) \<noteq> bit (llq_cons q) (max_n_shift q)"
    unfolding queue_full_def Q_WRP_eq_iff [OF assms] Q_IDX_eq_iff ip_def ic_def ..
  have e: "queue_empty q \<longleftrightarrow> ip = ic \<and> bit (llq_prod q) (max_n_shift q) = bit (llq_cons q) (max_n_shift q)"
    unfolding queue_empty_def Q_WRP_eq_iff [OF assms] Q_IDX_eq_iff ip_def ic_def ..
  have i: "Q_IDX q (llq_prod q) = Q_IDX q (llq_cons q) \<longleftrightarrow> ip = ic"
    unfolding Q_IDX_eq_iff ip_def ic_def ..
  show ?thesis
    unfolding u f e i c_def [symmetric] using c b by auto
qed

theorem queue_full_empty_witness:
  "max_n_shift \<lparr>llq_prod = 5, llq_cons = 1, max_n_shift = 2\<rparr> < 31 \<and>
   queue_full \<lparr>llq_prod = 5, llq_cons = 1, max_n_shift = 2\<rparr> \<and>
   queue_used \<lparr>llq_prod = 5, llq_cons = 1, max_n_shift = 2\<rparr> = 4 \<and>
   \<not> queue_empty \<lparr>llq_prod = 5, llq_cons = 1, max_n_shift = 2\<rparr>"
  using queue_full_empty [of "\<lparr>llq_prod = 5, llq_cons = 1, max_n_shift = 2\<rparr>"]
  by (simp add: queue_full_def queue_empty_def Q_WRP_def Q_IDX_def)

text \<open>
  Claim C6 as stated fails: the queue of capacity 4 reached from the empty queue by one
  producer step holds one entry and is neither full nor empty.
\<close>

theorem queue_full_empty_not_exhaustive:
  "llq_consistent \<lparr>llq_prod = 1, llq_cons = 0, max_n_shift = 2\<rparr> \<and>
   \<lparr>llq_prod = 1, llq_cons = 0, max_n_shift = 2\<rparr> =
      \<lparr>llq_prod = 0, llq_cons = 0, max_n_shift = 2\<rparr>
        \<lparr>llq_prod := queue_inc_prod_n \<lparr>llq_prod = 0, llq_cons = 0, max_n_shift = 2\<rparr> 1\<rparr> \<and>
   \<not> queue_full \<lparr>llq_prod = 1, llq_cons = 0, max_n_shift = 2\<rparr> \<and>
   \<not> queue_empty \<lparr>llq_prod = 1, llq_cons = 0, max_n_shift = 2\<rparr>"
  by (simp add: llq_consistent_def queue_used_def wrp_idx_def queue_inc_prod_n_def
      queue_full_def queue_empty_def Q_OVF_def Q_WRP_def Q_IDX_def Q_OVERFLOW_FLAG_def Let_def)


lemma uint_push_bit_1:
  assumes "s < 31"
  shows "uint (push_bit s 1 :: u32) = 2 ^ s"
proof -
  have "s < LENGTH(32)" using assms by simp
  then have "(0::u32) < 2 ^ s" by (simp add: word_gt_0 exp_eq_zero_iff)
  then have "uint ((2::u32) ^ s) = 2 ^ s" by (rule uint_2p)
  then show ?thesis by (simp only: push_bit_of_1)
qed

text \<open>
  Claim C4, as amended.  For a consistent queue with a shift below 31,
  \<^verbatim>\<open>queue_has_space\<close> answers whether the wrap-aware number of free slots, which is the
  capacity minus the entries in flight, is at least \<open>n\<close>.  For capacity 4 with producer
  (wrap 0, position 3) and consumer (wrap 0, position 1) the queue holds 2 entries, and
  there is space for 1 and for 2 but not for 3.
\<close>

theorem queue_has_space_free_slots:
  assumes "max_n_shift q < 31" and "llq_consistent q"
  shows "(queue_has_space q n \<longleftrightarrow> uint n \<le> free_slots q) \<and>
         free_slots q = 2 ^ max_n_shift q - queue_used q \<and>
         queue_used \<lparr>llq_prod = 3, llq_cons = 1, max_n_shift = 2\<rparr> = 2 \<and>
         queue_has_space \<lparr>llq_prod = 3, llq_cons = 1, max_n_shift = 2\<rparr> 1 \<and>
         queue_has_space \<lparr>llq_prod = 3, llq_cons = 1, max_n_shift = 2\<rparr> 2 \<and>
         \<not> queue_has_space \<lparr>llq_prod = 3, llq_cons = 1, max_n_shift = 2\<rparr> 3"
proof -
  define c :: int where "c = 2 ^ max_n_shift q"
  define ip where "ip = uint (Q_IDX q (llq_prod q))"
  define ic where "ic = uint (Q_IDX q (llq_cons q))"
  define wp where "wp = bit (llq_prod q) (max_n_shift q)"
  define wc where "wc = bit (llq_cons q) (max_n_shift q)"
  have c: "0 < c" by (simp add: c_def)
  have "(2::int) ^ max_n_shift q \<le> 2 ^ 30"
    using assms(1) by (intro power_increasing) auto
  then have c30: "c \<le> 1073741824" by (simp add: c_def)
  have b: "0 \<le> ip" "ip < c" "0 \<le> ic" "ic < c"
    using uint_Q_IDX_bounds by (simp_all add: ip_def ic_def c_def)
  have u: "queue_used q =
     (if wp = wc then (if ic \<le> ip then ip - ic else 2 * c + ip - ic) else c + ip - ic)"
    unfolding queue_used_cases Let_def c_def ip_def ic_def wp_def wc_def ..
  have ord: "if wp = wc then ic \<le> ip else ip \<le> ic"
    using assms(2) b c unfolding llq_consistent_def u c_def [symmetric]
    by (auto split: if_splits)
  have w: "Q_WRP q (llq_prod q) = Q_WRP q (llq_cons q) \<longleftrightarrow> wp = wc"
    unfolding Q_WRP_eq_iff [OF assms(1)] wp_def wc_def ..
  have fs: "free_slots q = (if wp = wc then c - (ip - ic) else ic - ip)"
    unfolding free_slots_def Let_def w c_def ip_def ic_def ..
  have sp: "queue_has_space q n \<longleftrightarrow>
     uint n \<le> uint (if wp = wc then push_bit (max_n_shift q) 1 - (Q_IDX q (llq_prod q) - Q_IDX q (llq_cons q))
                   else Q_IDX q (llq_cons q) - Q_IDX q (llq_prod q))"
    unfolding queue_has_space_def Let_def w by (simp add: word_le_def)
  have d1: "wp = wc \<Longrightarrow> uint (Q_IDX q (llq_prod q) - Q_IDX q (llq_cons q)) = ip - ic"
    using ord unfolding ip_def ic_def by (simp add: uint_sub_lem [THEN iffD1])
  have d2: "uint (push_bit (max_n_shift q) 1 - (Q_IDX q (llq_prod q) - Q_IDX q (llq_cons q)) :: u32) = c - (ip - ic)"
    if "wp = wc"
  proof -
    have "uint (Q_IDX q (llq_prod q) - Q_IDX q (llq_cons q)) \<le> uint (push_bit (max_n_shift q) 1 :: u32)"
      unfolding d1 [OF that] uint_push_bit_1 [OF assms(1)] c_def [symmetric] using b by linarith
    then have "uint (push_bit (max_n_shift q) 1 - (Q_IDX q (llq_prod q) - Q_IDX q (llq_cons q)) :: u32) =
       uint (push_bit (max_n_shift q) 1 :: u32) - uint (Q_IDX q (llq_prod q) - Q_IDX q (llq_cons q))"
      by (rule uint_sub_lem [THEN iffD1])
    then show ?thesis
      unfolding d1 [OF that] uint_push_bit_1 [OF assms(1)] c_def [symmetric] .
  qed
  have d3: "wp \<noteq> wc \<Longrightarrow> uint (Q_IDX q (llq_cons q) - Q_IDX q (llq_prod q)) = ic - ip"
    using ord unfolding ip_def ic_def by (simp add: uint_sub_lem [THEN iffD1])
  have "queue_has_space q n \<longleftrightarrow> uint n \<le> free_slots q"
    unfolding sp fs using d2 d3 by simp
  moreover have "free_slots q = 2 ^ max_n_shift q - queue_used q"
    unfolding fs u c_def [symmetric] using ord by auto
  moreover have "queue_used \<lparr>llq_prod = 3, llq_cons = 1, max_n_shift = 2\<rparr> = 2"
    by (simp add: queue_used_def wrp_idx_def Q_WRP_def Q_IDX_def)
  moreover have "queue_has_space \<lparr>llq_prod = 3, llq_cons = 1, max_n_shift = 2\<rparr> 1"
    "queue_has_space \<lparr>llq_prod = 3, llq_cons = 1, max_n_shift = 2\<rparr> 2"
    "\<not> queue_has_space \<lparr>llq_prod = 3, llq_cons = 1, max_n_shift = 2\<rparr> 3"
    by (simp_all add: queue_has_space_def Q_WRP_def Q_IDX_def Let_def)
  ultimately show ?thesis by blast
qed


theorem queue_has_space_free_slots_witness:
  "max_n_shift \<lparr>llq_prod = 6, llq_cons = 3, max_n_shift = 2\<rparr> < 31 \<and>
   llq_consistent \<lparr>llq_prod = 6, llq_cons = 3, max_n_shift = 2\<rparr> \<and>
   queue_has_space \<lparr>llq_prod = 6, llq_cons = 3, max_n_shift = 2\<rparr> 1 \<and>
   free_slots \<lparr>llq_prod = 6, llq_cons = 3, max_n_shift = 2\<rparr> = 1 \<and>
   queue_used \<lparr>llq_prod = 6, llq_cons = 3, max_n_shift = 2\<rparr> = 3"
  using queue_has_space_free_slots [of "\<lparr>llq_prod = 6, llq_cons = 3, max_n_shift = 2\<rparr>" 1]
  by (simp add: llq_consistent_def queue_used_def free_slots_def wrp_idx_def Q_WRP_def Q_IDX_def)

text \<open>
  Claim C4 as stated fails in its example: with 2 of 4 slots in use there is space
  for 2 commands.
\<close>

theorem queue_has_space_example_refuted:
  "\<not> (queue_has_space \<lparr>llq_prod = 3, llq_cons = 1, max_n_shift = 2\<rparr> 1 \<and>
      \<not> queue_has_space \<lparr>llq_prod = 3, llq_cons = 1, max_n_shift = 2\<rparr> 2)"
  by (simp add: queue_has_space_def Q_WRP_def Q_IDX_def Let_def)

section \<open>Command queue error recovery\<close>

lemma build_cmd_sync:
  "arm_smmu_cmdq_build_cmd (cmdq_ent_init CMDQ_OP_CMD_SYNC) = Inr [CMD_SYNC_dword0, 0]"
  by code_simp

lemma queue_write_2: "queue_write m dst [a, b] 2 = m(dst := a, Suc dst := b)"
  by (simp add: numeral_2_eq_2)

lemma queue_read_2: "queue_read m src 2 = [m src, m (Suc src)]"
  by (simp add: queue_read_def numeral_2_eq_2 upt_rec)

text \<open>
  Claim C5, as amended.  \<^verbatim>\<open>arm_smmu_cmdq_skip_err\<close> never changes the shadow queue
  state (shadow indices, valid bitmap, owner index, lock) or the registers.  When the
  error field of the consumer register reports no error or an abort on command fetch,
  it leaves the queue memory alone as well (the fetch is retried).  For an illegal
  command, and for any other error code, it logs the entry at the hardware consumer
  index and overwrites that slot in place with a CMD_SYNC.
\<close>

theorem arm_smmu_cmdq_skip_err_effect:
  assumes "q_ent_dwords (cmdq_q cmdq) = CMDQ_ENT_DWORDS"
  shows "(let q = cmdq_q cmdq;
              idx = FIELD_GET CMDQ_CONS_ERR (ucast (q_cons_reg q));
              e = Q_ENT q (q_cons_reg q);
              cmdq' = fst (arm_smmu_cmdq_skip_err cmdq);
              lg = snd (arm_smmu_cmdq_skip_err cmdq)
          in q_llq (cmdq_q cmdq') = q_llq q \<and>
             cmdq_valid_map cmdq' = cmdq_valid_map cmdq \<and>
             cmdq_owner_prod cmdq' = cmdq_owner_prod cmdq \<and>
             cmdq_lock cmdq' = cmdq_lock cmdq \<and>
             q_prod_reg (cmdq_q cmdq') = q_prod_reg q \<and>
             q_cons_reg (cmdq_q cmdq') = q_cons_reg q \<and>
             (if idx = CMDQ_ERR_CERROR_ABT_IDX \<or> idx = CMDQ_ERR_CERROR_NONE_IDX
              then cmdq' = cmdq
              else q_base (cmdq_q cmdq') = (q_base q)(e := CMD_SYNC_dword0, Suc e := 0) \<and>
                   Dev_err ''skipping command in error state:'' [q_base q e, q_base q (Suc e)]
                     \<in> set lg))"
  using assms
  by (simp add: arm_smmu_cmdq_skip_err_def Let_def build_cmd_sync CMDQ_ENT_DWORDS_def
      queue_write_2 queue_read_2)

theorem arm_smmu_cmdq_skip_err_effect_witness:
  "q_ent_dwords (cmdq_q (example_err_cmdq 0x01000003)) = CMDQ_ENT_DWORDS \<and>
   FIELD_GET CMDQ_CONS_ERR (ucast (q_cons_reg (cmdq_q (example_err_cmdq 0x01000003)))) = CMDQ_ERR_CERROR_ILL_IDX \<and>
   q_base (cmdq_q (fst (arm_smmu_cmdq_skip_err (example_err_cmdq 0x01000003)))) 6 = CMD_SYNC_dword0 \<and>
   q_base (cmdq_q (fst (arm_smmu_cmdq_skip_err (example_err_cmdq 0x01000003)))) 7 = 0 \<and>
   q_base (cmdq_q (fst (arm_smmu_cmdq_skip_err (example_err_cmdq 0x01000003)))) 8 = 0x1111"
proof -
  have e: "FIELD_GET CMDQ_CONS_ERR (ucast (0x01000003 :: u32)) = 1" by code_simp
  have h: "q_ent_dwords (cmdq_q (example_err_cmdq 0x01000003)) = CMDQ_ENT_DWORDS"
    by (simp add: example_err_cmdq_def CMDQ_ENT_DWORDS_def)
  have c: "q_cons_reg (cmdq_q (example_err_cmdq 0x01000003)) = 0x01000003"
    by (simp add: example_err_cmdq_def)
  have q: "Q_ENT (cmdq_q (example_err_cmdq 0x01000003)) 0x01000003 = 6"
    by (simp add: example_err_cmdq_def Q_ENT_def Q_IDX_def)
  have b: "q_base (cmdq_q (example_err_cmdq 0x01000003)) = (\<lambda>a. 0x1111)"
    by (simp add: example_err_cmdq_def)
  from arm_smmu_cmdq_skip_err_effect [OF h]
  have "q_base (cmdq_q (fst (arm_smmu_cmdq_skip_err (example_err_cmdq 0x01000003)))) =
          (\<lambda>a. 0x1111)(6 := CMD_SYNC_dword0, Suc 6 := 0)"
    unfolding Let_def c e q b
    by (simp add: CMDQ_ERR_CERROR_ABT_IDX_def CMDQ_ERR_CERROR_NONE_IDX_def)
  moreover have "FIELD_GET CMDQ_CONS_ERR 0x01000003 = 1" by code_simp
  ultimately show ?thesis
    using h by (simp add: c CMDQ_ERR_CERROR_ILL_IDX_def)
qed

text \<open>
  Claim C5 as stated fails for an abort on command fetch: the slot at the consumer
  index keeps its content and does not become a CMD_SYNC.
\<close>

theorem arm_smmu_cmdq_skip_err_abort_keeps_slot:
  "FIELD_GET CMDQ_CONS_ERR (ucast (q_cons_reg (cmdq_q (example_err_cmdq 0x02000003)))) = CMDQ_ERR_CERROR_ABT_IDX \<and>
   cerror_str CMDQ_ERR_CERROR_ABT_IDX = ''Abort on command fetch'' \<and>
   Q_ENT (cmdq_q (example_err_cmdq 0x02000003)) 0x02000003 = 6 \<and>
   q_base (cmdq_q (fst (arm_smmu_cmdq_skip_err (example_err_cmdq 0x02000003)))) 6 = 0x1111 \<and>
   q_base (cmdq_q (fst (arm_smmu_cmdq_skip_err (example_err_cmdq 0x02000003)))) 6 \<noteq> CMD_SYNC_dword0"
proof -
  have e: "FIELD_GET CMDQ_CONS_ERR (ucast (0x02000003 :: u32)) = 2" by code_simp
  have c: "q_cons_reg (cmdq_q (example_err_cmdq 0x02000003)) = 0x02000003"
    by (simp add: example_err_cmdq_def)
  have q: "Q_ENT (cmdq_q (example_err_cmdq 0x02000003)) 0x02000003 = 6"
    by (simp add: example_err_cmdq_def Q_ENT_def Q_IDX_def)
  have r: "fst (arm_smmu_cmdq_skip_err (example_err_cmdq 0x02000003)) = example_err_cmdq 0x02000003"
    unfolding arm_smmu_cmdq_skip_err_def Let_def c e
    by (simp add: CMDQ_ERR_CERROR_ABT_IDX_def)
  have b: "q_base (cmdq_q (example_err_cmdq 0x02000003)) = (\<lambda>a. 0x1111)"
    by (simp add: example_err_cmdq_def)
  have e2: "FIELD_GET CMDQ_CONS_ERR 0x02000003 = 2" by code_simp
  show ?thesis
    unfolding r c q b
    by (simp add: e2 CMDQ_ERR_CERROR_ABT_IDX_def cerror_str_def CMDQ_ERR_CERROR_NONE_IDX_def
        CMDQ_ERR_CERROR_ILL_IDX_def CMD_SYNC_dword0_def)
qed

section \<open>Stream table entry updates\<close>







lemma store_simps [simp]:
  "ks_trace (store a v s) = ks_trace s @ [Store a v]"
  "ks_mem (store a v s) = (ks_mem s)(a := v)"
  by (simp_all add: store_def)













section \<open>Second-level stream tables\<close>

lemma write_bypass_ste:
  assumes "ks_mem s a = 0"
  shows "arm_smmu_write_strtab_ent kc None sid a
           \<lparr>ste_assigned = False, ste_s1_cfg = None, ste_s2_cfg = None, ste_can_stall = False\<rparr> s
         = Inr (s\<lparr>ks_mem := (ks_mem s)(a := bypass_ste_dword0 kc,
                     a + 1 := FIELD_PREP STRTAB_STE_1_SHCFG STRTAB_STE_1_SHCFG_INCOMING,
                     a + 2 := 0),
                  ks_trace := ks_trace s @ bypass_ste_stores kc a\<rparr>)"
  using assms
  by (simp add: arm_smmu_write_strtab_ent_def ste_live_of_def Let_def store_def
      bypass_ste_dword0_def bypass_ste_stores_def)

lemma bypass_block_mem_step:
  "bypass_block_mem kc (a + STRTAB_STE_DWORDS) n
     (m(a := bypass_ste_dword0 kc,
        a + 1 := FIELD_PREP STRTAB_STE_1_SHCFG STRTAB_STE_1_SHCFG_INCOMING,
        a + 2 := 0))
   = bypass_block_mem kc a (Suc n) m"
proof (rule ext)
  fix x
  let ?m' = "m(a := bypass_ste_dword0 kc,
        a + 1 := FIELD_PREP STRTAB_STE_1_SHCFG STRTAB_STE_1_SHCFG_INCOMING,
        a + 2 := 0)"
  consider "x < a" | "x = a" | "x = a + 1" | "x = a + 2" | "a + 3 \<le> x" "x < a + 8" | "a + 8 \<le> x"
    by linarith
  then show "bypass_block_mem kc (a + STRTAB_STE_DWORDS) n ?m' x = bypass_block_mem kc a (Suc n) m x"
  proof cases
    case 1
    then show ?thesis by (simp add: bypass_block_mem_def STRTAB_STE_DWORDS_def)
  next
    case 2
    then show ?thesis by (simp add: bypass_block_mem_def STRTAB_STE_DWORDS_def)
  next
    case 3
    then show ?thesis by (simp add: bypass_block_mem_def STRTAB_STE_DWORDS_def)
  next
    case 4
    then show ?thesis by (simp add: bypass_block_mem_def STRTAB_STE_DWORDS_def)
  next
    case 5
    then have "(x - a) mod 8 = x - a" "3 \<le> x - a" by simp_all
    with 5 show ?thesis by (simp add: bypass_block_mem_def STRTAB_STE_DWORDS_def)
  next
    case 6
    then have "x - a = (x - (a + 8)) + 8" by simp
    then have e: "(x - a) mod 8 = (x - (a + 8)) mod 8" by (metis mod_add_self2)
    have u: "?m' x = m x" using 6 by simp
    have r: "x < a + 8 + 8 * n \<longleftrightarrow> x < a + 8 * Suc n" by (simp add: add.assoc)
    show ?thesis
      unfolding bypass_block_mem_def STRTAB_STE_DWORDS_def e u r using 6 by simp
  qed
qed

lemma init_bypass_stes_run:
  assumes "\<forall>k<n. ks_mem s (a + STRTAB_STE_DWORDS * k) = 0"
  shows "arm_smmu_init_bypass_stes kc a n s =
           Inr (s\<lparr>ks_mem := bypass_block_mem kc a n (ks_mem s),
                   ks_trace := ks_trace s @
                     concat (map (\<lambda>i. bypass_ste_stores kc (a + STRTAB_STE_DWORDS * i)) [0..<n])\<rparr>)"
  using assms
proof (induction n arbitrary: a s)
  case 0
  have "bypass_block_mem kc a 0 (ks_mem s) = ks_mem s"
    by (rule ext) (auto simp add: bypass_block_mem_def)
  then show ?case by simp
next
  case (Suc n)
  define s1 where "s1 = s\<lparr>ks_mem := (ks_mem s)(a := bypass_ste_dword0 kc,
                     a + 1 := FIELD_PREP STRTAB_STE_1_SHCFG STRTAB_STE_1_SHCFG_INCOMING,
                     a + 2 := 0),
                  ks_trace := ks_trace s @ bypass_ste_stores kc a\<rparr>"
  have z: "ks_mem s a = 0" using Suc.prems by (metis mult_0_right add_0_right zero_less_Suc)
  have w: "arm_smmu_write_strtab_ent kc None (- 1) a
           \<lparr>ste_assigned = False, ste_s1_cfg = None, ste_s2_cfg = None, ste_can_stall = False\<rparr> s
         = Inr s1"
    unfolding s1_def using z by (rule write_bypass_ste)
  have pre: "\<forall>k<n. ks_mem s1 (a + STRTAB_STE_DWORDS + STRTAB_STE_DWORDS * k) = 0"
  proof (intro allI impI)
    fix k assume "k < n"
    then have "Suc k < Suc n" by simp
    with Suc.prems have "ks_mem s (a + STRTAB_STE_DWORDS * Suc k) = 0" by blast
    then show "ks_mem s1 (a + STRTAB_STE_DWORDS + STRTAB_STE_DWORDS * k) = 0"
      by (simp add: s1_def STRTAB_STE_DWORDS_def add.assoc)
  qed
  have m: "map (\<lambda>i. bypass_ste_stores kc (a + STRTAB_STE_DWORDS * i)) [0..<Suc n] =
      bypass_ste_stores kc a #
        map (\<lambda>i. bypass_ste_stores kc (a + STRTAB_STE_DWORDS + STRTAB_STE_DWORDS * i)) [0..<n]"
    by (simp add: upt_conv_Cons map_Suc_upt [symmetric] add.assoc del: upt_Suc)
  show ?case
    unfolding arm_smmu_init_bypass_stes.simps w sum.case Suc.IH [OF pre] m
    using bypass_block_mem_step [of kc a n "ks_mem s"] by (simp add: s1_def)
qed

lemma l2_size: "(2::nat) ^ (STRTAB_SPLIT + ilog2_STRTAB_STE_DWORDS + 3) = 16384"
  "(16384::nat) div 8 = 2048" "(2::nat) ^ STRTAB_SPLIT = 256"
  by (simp_all add: STRTAB_SPLIT_def ilog2_STRTAB_STE_DWORDS_def)

lemma init_l2_strtab_alloc:
  assumes "l1_l2ptr (cfg_l1_desc (smmu_strtab_cfg smmu) (unat (drop_bit STRTAB_SPLIT sid))) = None"
  shows "arm_smmu_init_l2_strtab kc (Some (p, dma)) smmu sid s =
     Inr (0,
       smmu\<lparr>smmu_strtab_cfg := (smmu_strtab_cfg smmu)\<lparr>cfg_l1_desc :=
          (cfg_l1_desc (smmu_strtab_cfg smmu))(unat (drop_bit STRTAB_SPLIT sid) :=
             (cfg_l1_desc (smmu_strtab_cfg smmu) (unat (drop_bit STRTAB_SPLIT sid)))
               \<lparr>l1_span := of_nat (STRTAB_SPLIT + 1), l1_l2ptr := Some p, l1_l2ptr_dma := dma\<rparr>)\<rparr>\<rparr>,
       s\<lparr>ks_mem := (bypass_block_mem kc p 256
                      (\<lambda>a. if p \<le> a \<and> a < p + 2048 then 0 else ks_mem s a))
                    (cfg_strtab (smmu_strtab_cfg smmu) + unat (drop_bit STRTAB_SPLIT sid)
                       := l1_desc_dword dma),
          ks_trace := ks_trace s @ Alloc_coherent 16384 #
             concat (map (\<lambda>i. bypass_ste_stores kc (p + STRTAB_STE_DWORDS * i)) [0..<256]) @
             [Store (cfg_strtab (smmu_strtab_cfg smmu) + unat (drop_bit STRTAB_SPLIT sid))
                (l1_desc_dword dma)]\<rparr>)"
proof -
  define s0 where "s0 = zero_block p 2048 (s\<lparr>ks_trace := ks_trace s @ [Alloc_coherent 16384]\<rparr>)"
  have "\<forall>k<256. ks_mem s0 (p + STRTAB_STE_DWORDS * k) = 0"
    by (simp add: s0_def zero_block_def STRTAB_STE_DWORDS_def)
  then have run: "arm_smmu_init_bypass_stes kc p 256 s0 =
           Inr (s0\<lparr>ks_mem := bypass_block_mem kc p 256 (ks_mem s0),
                   ks_trace := ks_trace s0 @
                     concat (map (\<lambda>i. bypass_ste_stores kc (p + STRTAB_STE_DWORDS * i)) [0..<256])\<rparr>)"
    by (rule init_bypass_stes_run)
  define desc where "desc = (cfg_l1_desc (smmu_strtab_cfg smmu) (unat (drop_bit STRTAB_SPLIT sid)))
               \<lparr>l1_span := of_nat (STRTAB_SPLIT + 1), l1_l2ptr := Some p, l1_l2ptr_dma := dma\<rparr>"
  define smmu' where "smmu' = smmu\<lparr>smmu_strtab_cfg := (smmu_strtab_cfg smmu)\<lparr>cfg_l1_desc :=
          (cfg_l1_desc (smmu_strtab_cfg smmu))(unat (drop_bit STRTAB_SPLIT sid) := desc)\<rparr>\<rparr>"
  have 1: "arm_smmu_init_l2_strtab kc (Some (p, dma)) smmu sid s =
      (case arm_smmu_init_bypass_stes kc p 256 s0 of
         Inl b \<Rightarrow> Inl b
       | Inr s1 \<Rightarrow> Inr (0, smmu',
           arm_smmu_write_strtab_l1_desc
             (cfg_strtab (smmu_strtab_cfg smmu) + unat (drop_bit STRTAB_SPLIT sid)) desc s1))"
    using assms unfolding s0_def desc_def smmu'_def
    by (simp add: arm_smmu_init_l2_strtab_def Let_def l2_size STRTAB_L1_DESC_DWORDS_def
        cong: sum.case_cong)
  have 2: "ks_mem s0 = (\<lambda>a. if p \<le> a \<and> a < p + 2048 then 0 else ks_mem s a)"
    "ks_trace s0 = ks_trace s @ [Alloc_coherent 16384]"
    by (simp_all add: s0_def zero_block_def cong: if_cong)
  have 3: "l1_span desc = of_nat (STRTAB_SPLIT + 1)" "l1_l2ptr_dma desc = dma"
    by (simp_all add: desc_def)
  have 4: "s0\<lparr>ks_mem := m, ks_trace := t\<rparr> = s\<lparr>ks_mem := m, ks_trace := t\<rparr>" for m t
    by (simp add: s0_def zero_block_def)
  show ?thesis
    unfolding 1 run sum.case arm_smmu_write_strtab_l1_desc_def store_def 3
    unfolding smmu'_def desc_def l1_desc_dword_def [symmetric]
    by (simp add: 2 4 del: upt_Suc)
qed

lemma init_l2_strtab_present:
  assumes "l1_l2ptr (cfg_l1_desc (smmu_strtab_cfg smmu) (unat (drop_bit STRTAB_SPLIT sid))) \<noteq> None"
  shows "arm_smmu_init_l2_strtab kc alloc smmu sid s = Inr (0, smmu, s)"
  using assms by (simp add: arm_smmu_init_l2_strtab_def Let_def)

text \<open>
  Claim C9.  On the first use of a stream-ID range, when the allocation succeeds,
  \<^verbatim>\<open>arm_smmu_init_l2_strtab\<close> returns 0 after this sequence: the allocation, the three
  stores of the bypass/abort configuration for each of the 256 entries of the new block
  in turn, and last the store of the first-level descriptor.  Afterwards every entry of
  the block holds the bypass/abort configuration, and every later call for a stream ID
  of the same range returns 0 and changes nothing, whatever an allocation would answer.
\<close>

theorem arm_smmu_init_l2_strtab_first_use:
  assumes "l1_l2ptr (cfg_l1_desc (smmu_strtab_cfg smmu) (unat (drop_bit STRTAB_SPLIT sid))) = None"
  shows "\<exists>smmu' s'.
     arm_smmu_init_l2_strtab kc (Some (p, dma)) smmu sid s = Inr (0, smmu', s') \<and>
     ks_trace s' = ks_trace s @ Alloc_coherent 16384 #
        concat (map (\<lambda>i. bypass_ste_stores kc (p + STRTAB_STE_DWORDS * i)) [0..<256]) @
        [Store (cfg_strtab (smmu_strtab_cfg smmu) + unat (drop_bit STRTAB_SPLIT sid))
           (l1_desc_dword dma)] \<and>
     (\<forall>a. p \<le> a \<and> a < p + 2048 \<and>
          a \<noteq> cfg_strtab (smmu_strtab_cfg smmu) + unat (drop_bit STRTAB_SPLIT sid) \<longrightarrow>
          ks_mem s' a =
            (if (a - p) mod STRTAB_STE_DWORDS = 0 then bypass_ste_dword0 kc
             else if (a - p) mod STRTAB_STE_DWORDS = 1
             then FIELD_PREP STRTAB_STE_1_SHCFG STRTAB_STE_1_SHCFG_INCOMING
             else 0)) \<and>
     ks_mem s' (cfg_strtab (smmu_strtab_cfg smmu) + unat (drop_bit STRTAB_SPLIT sid))
       = l1_desc_dword dma \<and>
     l1_l2ptr (cfg_l1_desc (smmu_strtab_cfg smmu') (unat (drop_bit STRTAB_SPLIT sid))) = Some p \<and>
     (\<forall>sid' alloc'. drop_bit STRTAB_SPLIT sid' = drop_bit STRTAB_SPLIT sid \<longrightarrow>
        arm_smmu_init_l2_strtab kc alloc' smmu' sid' s' = Inr (0, smmu', s'))"
proof -
  let ?idx = "unat (drop_bit STRTAB_SPLIT sid)"
  let ?l1 = "cfg_strtab (smmu_strtab_cfg smmu) + ?idx"
  define smmu' where "smmu' = smmu\<lparr>smmu_strtab_cfg := (smmu_strtab_cfg smmu)\<lparr>cfg_l1_desc :=
          (cfg_l1_desc (smmu_strtab_cfg smmu))(?idx :=
             (cfg_l1_desc (smmu_strtab_cfg smmu) ?idx)
               \<lparr>l1_span := of_nat (STRTAB_SPLIT + 1), l1_l2ptr := Some p, l1_l2ptr_dma := dma\<rparr>)\<rparr>\<rparr>"
  define s' where "s' = s\<lparr>ks_mem := (bypass_block_mem kc p 256
                      (\<lambda>a. if p \<le> a \<and> a < p + 2048 then 0 else ks_mem s a))
                    (?l1 := l1_desc_dword dma),
          ks_trace := ks_trace s @ Alloc_coherent 16384 #
             concat (map (\<lambda>i. bypass_ste_stores kc (p + STRTAB_STE_DWORDS * i)) [0..<256]) @
             [Store ?l1 (l1_desc_dword dma)]\<rparr>"
  have r: "arm_smmu_init_l2_strtab kc (Some (p, dma)) smmu sid s = Inr (0, smmu', s')"
    unfolding smmu'_def s'_def using assms by (rule init_l2_strtab_alloc)
  have t: "ks_trace s' = ks_trace s @ Alloc_coherent 16384 #
        concat (map (\<lambda>i. bypass_ste_stores kc (p + STRTAB_STE_DWORDS * i)) [0..<256]) @
        [Store ?l1 (l1_desc_dword dma)]"
    by (simp add: s'_def del: upt_Suc)
  have m: "\<forall>a. p \<le> a \<and> a < p + 2048 \<and> a \<noteq> ?l1 \<longrightarrow>
          ks_mem s' a =
            (if (a - p) mod STRTAB_STE_DWORDS = 0 then bypass_ste_dword0 kc
             else if (a - p) mod STRTAB_STE_DWORDS = 1
             then FIELD_PREP STRTAB_STE_1_SHCFG STRTAB_STE_1_SHCFG_INCOMING
             else 0)"
    by (simp add: s'_def bypass_block_mem_def STRTAB_STE_DWORDS_def)
  have l: "ks_mem s' ?l1 = l1_desc_dword dma" by (simp add: s'_def)
  have d: "l1_l2ptr (cfg_l1_desc (smmu_strtab_cfg smmu') ?idx) = Some p"
    by (simp add: smmu'_def)
  have again: "\<forall>sid' alloc'. drop_bit STRTAB_SPLIT sid' = drop_bit STRTAB_SPLIT sid \<longrightarrow>
        arm_smmu_init_l2_strtab kc alloc' smmu' sid' s' = Inr (0, smmu', s')"
  proof (intro allI impI)
    fix sid' alloc'
    assume "drop_bit STRTAB_SPLIT sid' = drop_bit STRTAB_SPLIT sid"
    then have "l1_l2ptr (cfg_l1_desc (smmu_strtab_cfg smmu') (unat (drop_bit STRTAB_SPLIT sid'))) \<noteq> None"
      using d by simp
    then show "arm_smmu_init_l2_strtab kc alloc' smmu' sid' s' = Inr (0, smmu', s')"
      by (rule init_l2_strtab_present)
  qed
  from r t m l d again show ?thesis by blast
qed

theorem arm_smmu_init_l2_strtab_first_use_witness:
  "l1_l2ptr (cfg_l1_desc (smmu_strtab_cfg example_smmu) (unat (drop_bit STRTAB_SPLIT (0x305 :: u32)))) = None \<and>
   (\<exists>smmu' s'.
     arm_smmu_init_l2_strtab example_kc (Some (4096, 0x40000)) example_smmu 0x305 example_ks
       = Inr (0, smmu', s') \<and>
     ks_mem s' 6136 = bypass_ste_dword0 example_kc \<and>
     ks_mem s' 6137 = FIELD_PREP STRTAB_STE_1_SHCFG STRTAB_STE_1_SHCFG_INCOMING \<and>
     ks_mem s' 3 = l1_desc_dword 0x40000 \<and>
     arm_smmu_init_l2_strtab example_kc None smmu' 0x3FF s' = Inr (0, smmu', s'))"
proof -
  have h: "l1_l2ptr (cfg_l1_desc (smmu_strtab_cfg example_smmu) (unat (drop_bit STRTAB_SPLIT (0x305 :: u32)))) = None"
    by (simp add: example_smmu_def)
  have i: "unat (drop_bit STRTAB_SPLIT (0x305 :: u32)) = 3" by (simp add: STRTAB_SPLIT_def drop_bit_eq_div)
  have j: "drop_bit STRTAB_SPLIT (0x3FF :: u32) = drop_bit STRTAB_SPLIT 0x305"
    by (simp add: STRTAB_SPLIT_def drop_bit_eq_div)
  have c: "cfg_strtab (smmu_strtab_cfg example_smmu) = 0" by (simp add: example_smmu_def)
  from arm_smmu_init_l2_strtab_first_use [OF h, of example_kc 4096 "0x40000" example_ks]
  obtain smmu' s' where
    r: "arm_smmu_init_l2_strtab example_kc (Some (4096, 0x40000)) example_smmu 0x305 example_ks
       = Inr (0, smmu', s')"
    and m: "\<forall>a. 4096 \<le> a \<and> a < 4096 + 2048 \<and> a \<noteq> 3 \<longrightarrow>
          ks_mem s' a =
            (if (a - 4096) mod STRTAB_STE_DWORDS = 0 then bypass_ste_dword0 example_kc
             else if (a - 4096) mod STRTAB_STE_DWORDS = 1
             then FIELD_PREP STRTAB_STE_1_SHCFG STRTAB_STE_1_SHCFG_INCOMING
             else 0)"
    and l: "ks_mem s' 3 = l1_desc_dword 0x40000"
    and a: "\<forall>sid' alloc'. drop_bit STRTAB_SPLIT sid' = drop_bit STRTAB_SPLIT (0x305 :: u32) \<longrightarrow>
        arm_smmu_init_l2_strtab example_kc alloc' smmu' sid' s' = Inr (0, smmu', s')"
    unfolding i c by auto
  have "ks_mem s' 6136 = bypass_ste_dword0 example_kc"
    using m [rule_format, of 6136] by (simp add: STRTAB_STE_DWORDS_def)
  moreover have "ks_mem s' 6137 = FIELD_PREP STRTAB_STE_1_SHCFG STRTAB_STE_1_SHCFG_INCOMING"
    using m [rule_format, of 6137] by (simp add: STRTAB_STE_DWORDS_def)
  moreover have "arm_smmu_init_l2_strtab example_kc None smmu' 0x3FF s' = Inr (0, smmu', s')"
    using a j by blast
  ultimately show ?thesis using h r l by blast
qed

section \<open>Attaching and detaching devices\<close>

lemma filter_upt_nil_iff: "filter P [0..<n] = [] \<longleftrightarrow> (\<forall>k<n. \<not> P k)"
  by (auto simp add: filter_empty_conv)

lemma filter_upt_single_iff:
  "filter P [0..<n] = [d] \<longleftrightarrow> d < n \<and> P d \<and> (\<forall>k<n. k \<noteq> d \<longrightarrow> \<not> P k)"
proof
  assume a: "filter P [0..<n] = [d]"
  then have "set (filter P [0..<n]) = {d}" by simp
  then have "{k. k < n \<and> P k} = {d}" by auto
  then show "d < n \<and> P d \<and> (\<forall>k<n. k \<noteq> d \<longrightarrow> \<not> P k)" by blast
next
  assume b: "d < n \<and> P d \<and> (\<forall>k<n. k \<noteq> d \<longrightarrow> \<not> P k)"
  then have s: "set (filter P [0..<n]) = {d}" by auto
  have dist: "distinct (filter P [0..<n])" by simp
  show "filter P [0..<n] = [d]"
  proof (cases "filter P [0..<n]")
    case Nil
    with s show ?thesis by simp
  next
    case (Cons x xs)
    with s have x: "x = d" by auto
    from Cons s have "set xs \<subseteq> {d}" by auto
    moreover from Cons dist x have "d \<notin> set xs" by auto
    ultimately have "xs = []" by (cases xs) auto
    with Cons x show ?thesis by simp
  qed
qed

lemma attached_nil_iff:
  "attached_domains s dev = [] \<longleftrightarrow>
     (\<forall>k<length (sys_domains s). dev \<notin> set (dom_devices (sys_domains s ! k)))"
  unfolding attached_domains_def by (rule filter_upt_nil_iff)

lemma attached_single_iff:
  "attached_domains s dev = [d] \<longleftrightarrow>
     d < length (sys_domains s) \<and> dev \<in> set (dom_devices (sys_domains s ! d)) \<and>
     (\<forall>k<length (sys_domains s). k \<noteq> d \<longrightarrow> dev \<notin> set (dom_devices (sys_domains s ! k)))"
  unfolding attached_domains_def by (rule filter_upt_single_iff)

lemma count_list_remove1:
  "count_list (remove1 x xs) y = (if x = y \<and> x \<in> set xs then count_list xs y - 1 else count_list xs y)"
  by (induction xs) auto

lemma remove1_count_one: "count_list xs x = 1 \<Longrightarrow> x \<notin> set (remove1 x xs)"
proof -
  assume a: "count_list xs x = 1"
  then have "x \<in> set xs" by (metis count_list_0_iff zero_neq_one)
  then have "count_list (remove1 x xs) x = count_list xs x - 1"
    by (simp add: count_list_remove1)
  with a have "count_list (remove1 x xs) x = 0" by simp
  then show ?thesis by (metis count_list_0_iff)
qed

lemma set_remove1_other: "y \<noteq> x \<Longrightarrow> y \<in> set (remove1 x xs) \<longleftrightarrow> y \<in> set xs"
  by (induction xs) auto

text \<open>What detaching does to the attachment state.\<close>

lemma detach_dev_effect:
  assumes inv: "attach_consistent s dev"
    and res: "arm_smmu_detach_dev kc dev s = Inr s1"
  shows "attached_domains s1 dev = [] \<and>
         (\<exists>m. sys_masters s1 dev = Some m \<and> master_domain m = None \<and>
              \<not> ste_assigned (master_ste m)) \<and>
         attach_consistent s1 dev \<and>
         length (sys_domains s1) = length (sys_domains s) \<and>
         (\<forall>k<length (sys_domains s). \<forall>dev'. dev' \<noteq> dev \<longrightarrow>
            (dev' \<in> set (dom_devices (sys_domains s1 ! k)) \<longleftrightarrow>
             dev' \<in> set (dom_devices (sys_domains s ! k)))) \<and>
         (\<forall>k<length (sys_domains s). dom_smmu (sys_domains s1 ! k) = dom_smmu (sys_domains s ! k)) \<and>
         (\<forall>dev'. dev' \<noteq> dev \<longrightarrow> sys_masters s1 dev' = sys_masters s dev')"
proof -
  from res obtain master where m: "sys_masters s dev = Some master"
    by (auto simp add: arm_smmu_detach_dev_def split: option.splits)
  define doms where "doms = (case master_domain master of
                        None \<Rightarrow> sys_domains s
                      | Some d \<Rightarrow>
                          (sys_domains s)[d := (sys_domains s ! d)
                             \<lparr>dom_devices := remove1 dev (dom_devices (sys_domains s ! d))\<rparr>])"
  define master' where "master' = master\<lparr>master_domain := None,
                              master_ste := (master_ste master)\<lparr>ste_assigned := False\<rparr>\<rparr>"
  from res m obtain ks where
    s1: "s1 = s\<lparr>sys_domains := doms, sys_masters := (sys_masters s)(dev \<mapsto> master'), sys_ks := ks\<rparr>"
    by (auto simp add: arm_smmu_detach_dev_def Let_def doms_def master'_def split: sum.splits)
  have len: "length doms = length (sys_domains s)"
    by (simp add: doms_def split: option.splits)
  have none: "\<forall>k<length (sys_domains s). dev \<notin> set (dom_devices (doms ! k))"
  proof (cases "master_domain master")
    case None
    with inv m have "attached_domains s dev = []" by (simp add: attach_consistent_def)
    then show ?thesis using None by (simp add: attached_nil_iff doms_def)
  next
    case (Some d)
    with inv m have d: "d < length (sys_domains s)" and a: "attached_domains s dev = [d]"
      and c: "count_list (dom_devices (sys_domains s ! d)) dev = 1"
      by (simp_all add: attach_consistent_def)
    from c have "dev \<notin> set (remove1 dev (dom_devices (sys_domains s ! d)))"
      by (rule remove1_count_one)
    then show ?thesis
      using a d Some by (auto simp add: attached_single_iff doms_def nth_list_update)
  qed
  have dlen: "master_domain master = Some d \<Longrightarrow> d < length (sys_domains s)" for d
    using inv m by (simp add: attach_consistent_def)
  have others: "\<forall>k<length (sys_domains s). \<forall>dev'. dev' \<noteq> dev \<longrightarrow>
            (dev' \<in> set (dom_devices (doms ! k)) \<longleftrightarrow>
             dev' \<in> set (dom_devices (sys_domains s ! k)))"
    using dlen
    by (auto simp add: doms_def nth_list_update set_remove1_other split: option.splits if_splits)
  have smmus: "\<forall>k<length (sys_domains s). dom_smmu (doms ! k) = dom_smmu (sys_domains s ! k)"
    using dlen by (auto simp add: doms_def nth_list_update split: option.splits)
  have 1: "attached_domains s1 dev = []"
    using none by (simp add: attached_nil_iff s1 len)
  have 2: "sys_masters s1 dev = Some master'" "master_domain master' = None"
    "\<not> ste_assigned (master_ste master')"
    by (simp_all add: s1 master'_def)
  have 3: "attach_consistent s1 dev"
    using 1 2 by (simp add: attach_consistent_def)
  have 4: "length (sys_domains s1) = length (sys_domains s)" by (simp add: s1 len)
  have 5: "\<forall>dev'. dev' \<noteq> dev \<longrightarrow> sys_masters s1 dev' = sys_masters s dev'"
    by (simp add: s1)
  from 1 2 3 4 5 others smmus show ?thesis by (simp add: s1)
qed

lemma attach_bind_devices: "dom_devices (snd (attach_bind fin dmn master)) = dom_devices dmn"
  by (simp add: attach_bind_def arm_smmu_domain_finalise_def Let_def)

text \<open>Attaching a device that is attached nowhere.\<close>

lemma attach_unassigned_effect:
  assumes m: "sys_masters s dev = Some master"
    and un: "\<not> ste_assigned (master_ste master)" "master_domain master = None"
    and nil: "attached_domains s dev = []"
    and d: "d < length (sys_domains s)"
    and res: "arm_smmu_attach_dev kc fin d dev s = Inr (ret, s')"
  shows "length (sys_domains s') = length (sys_domains s) \<and>
         (ret = 0 \<longrightarrow>
            attached_domains s' dev = [d] \<and>
            count_list (dom_devices (sys_domains s' ! d)) dev = 1 \<and>
            (\<exists>m'. sys_masters s' dev = Some m' \<and> master_domain m' = Some d \<and>
                   ste_assigned (master_ste m'))) \<and>
         (ret \<noteq> 0 \<longrightarrow> attached_domains s' dev = [] \<and> sys_masters s' dev = Some master) \<and>
         (\<forall>k<length (sys_domains s). \<forall>dev'. dev' \<noteq> dev \<longrightarrow>
            (dev' \<in> set (dom_devices (sys_domains s' ! k)) \<longleftrightarrow>
             dev' \<in> set (dom_devices (sys_domains s ! k)))) \<and>
         (\<forall>dev'. dev' \<noteq> dev \<longrightarrow> sys_masters s' dev' = sys_masters s dev')"
proof -
  define r where "r = attach_bind fin (sys_domains s ! d) master"
  have dv: "dom_devices (snd r) = dom_devices (sys_domains s ! d)"
    unfolding r_def by (rule attach_bind_devices)
  have notin: "\<forall>k<length (sys_domains s). dev \<notin> set (dom_devices (sys_domains s ! k))"
    using nil by (simp add: attached_nil_iff)
  show ?thesis
  proof (cases "fst r = 0")
    case False
    with res m un have ret: "ret = fst r"
      and s': "s' = s\<lparr>sys_domains := (sys_domains s)[d := snd r]\<rparr>"
      by (auto simp add: arm_smmu_attach_dev_def Let_def r_def)
    have "\<forall>k<length (sys_domains s). dom_devices (sys_domains s' ! k) = dom_devices (sys_domains s ! k)"
      using dv d by (auto simp add: s' nth_list_update)
    then show ?thesis
      using False ret notin m by (simp add: s' attached_nil_iff)
  next
    case True
    define dmn where "dmn = (snd r)\<lparr>dom_devices := dev # dom_devices (snd r)\<rparr>"
    from res m un True obtain m' ks where ret: "ret = 0"
      and s': "s' = s\<lparr>sys_domains := (sys_domains s)[d := dmn],
                       sys_masters := (sys_masters s)(dev \<mapsto> m'), sys_ks := ks\<rparr>"
      and m': "master_domain m' = Some d" "ste_assigned (master_ste m')"
      by (auto simp add: arm_smmu_attach_dev_def Let_def r_def dmn_def split: sum.splits if_splits)
    have dd: "dom_devices dmn = dev # dom_devices (sys_domains s ! d)"
      by (simp add: dmn_def dv)
    have nd: "dev \<notin> set (dom_devices (sys_domains s ! d))" using notin d by simp
    have 1: "attached_domains s' dev = [d]"
      using d notin by (simp add: attached_single_iff s' dd nth_list_update)
    have 2: "count_list (dom_devices (sys_domains s' ! d)) dev = 1"
      using d nd by (simp add: s' dd count_list_0_iff)
    have 3: "\<forall>k<length (sys_domains s). \<forall>dev'. dev' \<noteq> dev \<longrightarrow>
            (dev' \<in> set (dom_devices (sys_domains s' ! k)) \<longleftrightarrow>
             dev' \<in> set (dom_devices (sys_domains s ! k)))"
      using d by (auto simp add: s' dd nth_list_update)
    show ?thesis
      using 1 2 3 ret m' by (simp add: s')
  qed
qed

text \<open>
  A system with two domains on one SMMU: device 7, with stream ID 5, is attached to the
  bypass domain 0; domain 1 is a stage-1 domain that holds device 3.  The environment's
  \<open>example_fin\<close> lets every finalisation succeed and leaves the domain as it is.
\<close>

text \<open>
  Claim C8.  For a device whose attachment is consistent and a call of
  \<^verbatim>\<open>arm_smmu_attach_dev\<close> that returns: if the stream table entry was assigned, the call
  is a detach, after which the device is in no device list and has no domain, followed
  by the attach of the detached device; after a successful attach the device is in the
  device list of the new domain and in no other and its master points to that domain;
  after a failed one it is in no list.  The attachment stays consistent, so the device
  is never in more than one list, and the membership of other devices is untouched.
\<close>

theorem arm_smmu_attach_dev_single_domain:
  assumes inv: "attach_consistent s dev"
    and d: "d < length (sys_domains s)"
    and m: "sys_masters s dev = Some master"
    and res: "arm_smmu_attach_dev kc fin d dev s = Inr (ret, s')"
  shows "(ste_assigned (master_ste master) \<longrightarrow>
            (\<exists>s1. arm_smmu_detach_dev kc dev s = Inr s1 \<and>
                  attached_domains s1 dev = [] \<and>
                  (\<exists>m1. sys_masters s1 dev = Some m1 \<and> master_domain m1 = None \<and>
                        \<not> ste_assigned (master_ste m1)) \<and>
                  arm_smmu_attach_dev kc fin d dev s1 = Inr (ret, s'))) \<and>
         (ret = 0 \<longrightarrow>
            attached_domains s' dev = [d] \<and>
            (\<exists>m'. sys_masters s' dev = Some m' \<and> master_domain m' = Some d \<and>
                   ste_assigned (master_ste m'))) \<and>
         (ret \<noteq> 0 \<longrightarrow> attached_domains s' dev = []) \<and>
         attach_consistent s' dev \<and>
         length (sys_domains s') = length (sys_domains s) \<and>
         (\<forall>k<length (sys_domains s). \<forall>dev'. dev' \<noteq> dev \<longrightarrow>
            (dev' \<in> set (dom_devices (sys_domains s' ! k)) \<longleftrightarrow>
             dev' \<in> set (dom_devices (sys_domains s ! k))))"
proof (cases "ste_assigned (master_ste master)")
  case False
  with inv m have un: "master_domain master = None" and nil: "attached_domains s dev = []"
    by (auto simp add: attach_consistent_def split: option.splits)
  note e = attach_unassigned_effect [OF m False un nil d res]
  have "attach_consistent s' dev"
  proof (cases "ret = 0")
    case True
    with e d show ?thesis by (auto simp add: attach_consistent_def)
  next
    case r: False
    with e False un show ?thesis by (auto simp add: attach_consistent_def)
  qed
  with e False show ?thesis by simp
next
  case True
  from res m True obtain s1 where det: "arm_smmu_detach_dev kc dev s = Inr s1"
    by (auto simp add: arm_smmu_attach_dev_def split: sum.splits)
  note de = detach_dev_effect [OF inv det]
  from de obtain m1 where m1: "sys_masters s1 dev = Some m1" "master_domain m1 = None"
    "\<not> ste_assigned (master_ste m1)" by blast
  from de have nil1: "attached_domains s1 dev = []" and len1: "length (sys_domains s1) = length (sys_domains s)"
    by simp_all
  have same: "arm_smmu_attach_dev kc fin d dev s1 = arm_smmu_attach_dev kc fin d dev s"
    using m True det m1 by (simp add: arm_smmu_attach_dev_def)
  then have res1: "arm_smmu_attach_dev kc fin d dev s1 = Inr (ret, s')" using res by simp
  have d1: "d < length (sys_domains s1)" using d len1 by simp
  note e = attach_unassigned_effect [OF m1(1) m1(3) m1(2) nil1 d1 res1]
  have c: "attach_consistent s' dev"
  proof (cases "ret = 0")
    case True
    with e d1 show ?thesis by (auto simp add: attach_consistent_def)
  next
    case r: False
    with e m1 show ?thesis by (auto simp add: attach_consistent_def)
  qed
  have o: "\<forall>k<length (sys_domains s). \<forall>dev'. dev' \<noteq> dev \<longrightarrow>
            (dev' \<in> set (dom_devices (sys_domains s' ! k)) \<longleftrightarrow>
             dev' \<in> set (dom_devices (sys_domains s ! k)))"
    using e de len1 by simp
  have first: "\<exists>s1. arm_smmu_detach_dev kc dev s = Inr s1 \<and>
                  attached_domains s1 dev = [] \<and>
                  (\<exists>m1. sys_masters s1 dev = Some m1 \<and> master_domain m1 = None \<and>
                        \<not> ste_assigned (master_ste m1)) \<and>
                  arm_smmu_attach_dev kc fin d dev s1 = Inr (ret, s')"
    using det nil1 m1 res1 by blast
  from first e c o len1 show ?thesis by simp
qed

theorem arm_smmu_attach_dev_single_domain_witness:
  "attach_consistent example_sys 7 \<and>
   1 < length (sys_domains example_sys) \<and>
   sys_masters example_sys 7 = Some example_master \<and>
   ste_assigned (master_ste example_master) \<and>
   attached_domains example_sys 7 = [0] \<and>
   \<not> isl (arm_smmu_attach_dev example_kc example_fin 1 7 example_sys) \<and>
   fst (projr (arm_smmu_attach_dev example_kc example_fin 1 7 example_sys)) = 0 \<and>
   attached_domains (snd (projr (arm_smmu_attach_dev example_kc example_fin 1 7 example_sys))) 7 = [1]"
proof -
  let ?X = "arm_smmu_attach_dev example_kc example_fin 1 7 example_sys"
  have a: "attached_domains example_sys 7 = [0]"
    by (simp add: attached_domains_def example_sys_def example_domains_def upt_rec)
  have h1: "attach_consistent example_sys 7"
    unfolding attach_consistent_def a
    by (simp add: example_sys_def example_master_def example_domains_def)
  have h2: "1 < length (sys_domains example_sys)"
    by (simp add: example_sys_def example_domains_def)
  have h3: "sys_masters example_sys 7 = Some example_master"
    by (simp add: example_sys_def)
  have h4: "ste_assigned (master_ste example_master)" by (simp add: example_master_def)
  have i: "\<not> isl ?X" by code_simp
  have r: "fst (projr ?X) = 0" by code_simp
  from i have "?X = Inr (fst (projr ?X), snd (projr ?X))" by simp
  from arm_smmu_attach_dev_single_domain [OF h1 h2 h3 this] r
  have "attached_domains (snd (projr ?X)) 7 = [1]" by simp
  with a h1 h2 h3 h4 i r show ?thesis by blast
qed

text \<open>
  The valid bitmap read slot by slot.  \<open>valid_map_bit\<close> is the bit of a slot position;
  a slot is valid under a producer index when its bit is the inverse of the index's wrap
  bit.  \<open>cmdq_llq\<close> is the local queue of \<^verbatim>\<open>__arm_smmu_cmdq_poll_set_valid_map\<close>,
  \<open>prod_add\<close> advances an index by a number of slots with \<^verbatim>\<open>queue_inc_prod_n\<close>, and an
  index is well formed when it has no bits besides the overflow flag, the wrap bit and
  the position.
\<close>

text \<open>
  For the proofs: the \<^verbatim>\<open>limit\<close> the loop computes from the start and end positions, the
  positions covered by \<open>n\<close> slots from \<open>P\<close> on a ring of \<open>C\<close> slots, and the
  (wrap, position) pair of an index as a number.
\<close>

section \<open>Marking and polling the valid bitmap\<close>

lemma pos_less: "pos s p < 2 ^ Suc s"
  unfolding pos_def by simp

lemma unat_take_bit_mod: "unat (take_bit n (p :: u32)) = unat p mod 2 ^ n"
proof -
  have "unat (take_bit n p) = take_bit n (unat p)" by (rule unsigned_take_bit_eq)
  also have "\<dots> = unat p mod 2 ^ n" by (rule take_bit_eq_mod)
  finally show ?thesis .
qed

lemma pos_take_bit: "pos s p = unat (take_bit (Suc s) p)"
  by (simp only: pos_def unat_take_bit_mod)

lemma unat_Q_IDX: "unat (Q_IDX (cmdq_llq s x) p) = pos s p mod 2 ^ s"
proof -
  have "unat (Q_IDX (cmdq_llq s x) p) = unat (take_bit s p)"
    by (simp add: Q_IDX_mask cmdq_llq_def)
  also have "\<dots> = unat p mod 2 ^ s"
    by (rule unat_take_bit_mod)
  also have "\<dots> = pos s p mod 2 ^ s"
    unfolding pos_def by (simp add: mod_mod_cancel)
  finally show ?thesis .
qed

lemma Q_WRP_pos: "Q_WRP (cmdq_llq s x) p = 0 \<longleftrightarrow> pos s p < 2 ^ s"
proof -
  have "Q_WRP (cmdq_llq s x) p = 0 \<longleftrightarrow> \<not> bit p s"
    by (simp add: Q_WRP_eq_0_iff cmdq_llq_def)
  also have "\<dots> \<longleftrightarrow> \<not> bit (unat p) s"
    by (simp add: bit_unsigned_iff)
  also have "\<dots> \<longleftrightarrow> take_bit (Suc s) (unat p) < 2 ^ s"
  proof -
    have "take_bit (Suc s) (unat p) = 2 ^ s * of_bool (bit (unat p) s) + take_bit s (unat p)"
      by (rule take_bit_Suc_from_most)
    moreover have "take_bit s (unat p) < 2 ^ s" by simp
    ultimately show ?thesis by (cases "bit (unat p) s") simp_all
  qed
  finally show ?thesis by (simp only: pos_def take_bit_eq_mod)
qed

lemma prod_add_alt:
  "prod_add s p k = Q_OVF p OR take_bit (Suc s) (p + of_nat k)"
  by (simp add: prod_add_def queue_inc_prod_n_alt cmdq_llq_def)

lemma prod_wf_alt: "prod_wf s p \<longleftrightarrow> p = Q_OVF p OR take_bit (Suc s) p"
  by (simp add: prod_wf_def wrp_idx_take_bit cmdq_llq_def)

lemma take_bit_Q_OVF_or:
  assumes "s < 31"
  shows "take_bit (Suc s) (Q_OVF p OR take_bit (Suc s) x) = take_bit (Suc s) x"
  using assms
  by (intro bit_eqI) (auto simp add: bit_Q_OVF bit_or_iff bit_take_bit_iff)

lemma prod_add_wf:
  assumes "s < 31"
  shows "prod_wf s (prod_add s p k)"
  unfolding prod_wf_alt prod_add_alt Q_OVF_or_take_bit [OF assms] take_bit_Q_OVF_or [OF assms] ..

lemma prod_add_ovf: "s < 31 \<Longrightarrow> Q_OVF (prod_add s p k) = Q_OVF p"
  unfolding prod_add_alt by (rule Q_OVF_or_take_bit)

lemma pos_prod_add: 
  assumes "s < 31"
  shows "pos s (prod_add s p k) = (pos s p + k) mod 2 ^ Suc s"
proof -
  have "pos s (prod_add s p k) = unat (take_bit (Suc s) (p + of_nat k))"
    unfolding pos_take_bit prod_add_alt take_bit_Q_OVF_or [OF assms] ..
  also have "int \<dots> = uint (take_bit (Suc s) (p + word_of_int (int k)))"
    by simp
  also have "\<dots> = (uint (take_bit (Suc s) p) + int k) mod 2 ^ Suc s"
    using assms by (rule uint_wrp_idx_add)
  also have "\<dots> = int ((pos s p + k) mod 2 ^ Suc s)"
    by (simp add: pos_take_bit zmod_int)
  finally show ?thesis by (simp only: of_nat_eq_iff)
qed

lemma prod_eqI:
  assumes "prod_wf s p" "prod_wf s e" "Q_OVF p = Q_OVF e" "pos s p = pos s e"
  shows "p = e"
proof -
  from assms(4) have "take_bit (Suc s) p = take_bit (Suc s) e"
    by (simp add: pos_take_bit word_unat_eq_iff)
  with assms(1,2,3) show ?thesis unfolding prod_wf_alt by metis
qed

lemma prod_add_0: "prod_wf s p \<Longrightarrow> prod_add s p 0 = p"
  unfolding prod_wf_alt prod_add_alt by simp

lemma prod_add_add:
  assumes "s < 31"
  shows "prod_add s (prod_add s p a) b = prod_add s p (a + b)"
proof (rule prod_eqI [where s = s])
  show "prod_wf s (prod_add s (prod_add s p a) b)" using assms by (rule prod_add_wf)
  show "prod_wf s (prod_add s p (a + b))" using assms by (rule prod_add_wf)
  show "Q_OVF (prod_add s (prod_add s p a) b) = Q_OVF (prod_add s p (a + b))"
    using assms by (simp add: prod_add_ovf)
  show "pos s (prod_add s (prod_add s p a) b) = pos s (prod_add s p (a + b))"
    using assms by (simp add: pos_prod_add mod_simps add.assoc)
qed

lemma GENMASK_first: "(NOT 0 - push_bit l 1 + 1 :: u64) = NOT (mask l)"
proof -
  have "(NOT 0 - push_bit l 1 + 1 :: u64) = - (2 ^ l)"
    by (simp add: push_bit_of_1)
  also have "\<dots> = NOT (mask l)" by (rule minus_exp_eq_not_mask)
  finally show ?thesis .
qed

lemma bit_GENMASK:
  assumes "h < 64"
  shows "bit (GENMASK h l) j \<longleftrightarrow> l \<le> j \<and> j \<le> h"
proof -
  have "bit (GENMASK h l) j \<longleftrightarrow> bit (NOT (mask l) :: u64) j \<and> bit (drop_bit (63 - h) (NOT 0 :: u64)) j"
    unfolding GENMASK_def GENMASK_first BITS_PER_LONG_def by (simp add: bit_and_iff)
  also have "bit (NOT (mask l) :: u64) j \<longleftrightarrow> j < 64 \<and> l \<le> j"
    by (auto simp add: bit_not_iff bit_mask_iff)
  also have "bit (drop_bit (63 - h) (NOT 0 :: u64)) j \<longleftrightarrow> j \<le> h"
    using assms by (auto simp add: bit_drop_bit_eq bit_not_iff bit_mask_iff)
  finally show ?thesis using assms by auto
qed

lemma mod_twice_then_once:
  fixes P n C :: nat
  shows "((P + n) mod (2 * C)) mod C = (P mod C + n) mod C"
proof -
  have "((P + n) mod (2 * C)) mod C = (P + n) mod C"
    by (simp add: mod_mod_cancel)
  then show ?thesis by (simp add: mod_simps)
qed

lemma mod_add_cases:
  fixes a n C :: nat
  assumes "a < C" "n \<le> C"
  shows "(a + n) mod C = (if a + n < C then a + n else a + n - C)"
  using assms by (simp add: mod_if)

lemma chunk_bounds:
  fixes ip ie n W :: nat
  assumes ip: "ip < 64 * W" and n0: "0 < n" and nC: "n \<le> 64 * W"
    and ie: "ie = (if ip + n < 64 * W then ip + n else ip + n - 64 * W)"
    and lim: "limit = (if ip div 64 = ie div 64 \<and> ip mod 64 < ie mod 64 then ie mod 64 else 64)"
  shows "ip mod 64 < limit \<and> limit \<le> 64 \<and> limit - ip mod 64 \<le> n \<and>
         ip + (limit - ip mod 64) \<le> 64 * W"
proof -
  define a where "a = ip div 64"
  define b where "b = ip mod 64"
  have ipd: "ip = 64 * a + b" and b: "b < 64" by (simp_all add: a_def b_def)
  have aW: "a < W" using ip ipd by linarith
  have ieC: "ie < 64 * W" using ie ip nC by (auto split: if_splits)
  show ?thesis
  proof (cases "ip div 64 = ie div 64 \<and> ip mod 64 < ie mod 64")
    case True
    then have l: "limit = ie mod 64" unfolding lim by (rule if_P)
    have ied: "ie = 64 * a + ie mod 64" using True by (simp add: a_def)
    have bb: "b < ie mod 64" using True by (simp add: b_def)
    have gt: "ip < ie" using ipd ied bb by linarith
    have "ie = ip + n"
    proof (cases "ip + n < 64 * W")
      case True then show ?thesis using ie by simp
    next
      case False
      then have "ie = ip + n - 64 * W" using ie by simp
      then have "ie \<le> ip" using nC by linarith
      with gt show ?thesis by simp
    qed
    then have c: "ie mod 64 - b = n" using ipd ied by linarith
    have 1: "b < limit" using bb l by simp
    have 2: "limit \<le> 64" using l by simp
    have 3: "limit - b \<le> n" using l c by simp
    have 4: "ip + (limit - b) \<le> 64 * W" using l c \<open>ie = ip + n\<close> ieC by linarith
    from 1 2 3 4 show ?thesis unfolding b_def by blast
  next
    case False
    then have l: "limit = 64" unfolding lim by (rule if_not_P)
    have 3: "64 - b \<le> n"
    proof (rule ccontr)
      assume "\<not> 64 - b \<le> n"
      then have nb: "b + n < 64" by simp
      then have "ip + n < 64 * W" using ipd aW by linarith
      then have e: "ie = 64 * a + (b + n)" using ie ipd by simp
      from e nb have "ie div 64 = a" by simp
      moreover from e nb have "ie mod 64 = b + n" by simp
      ultimately have "ip div 64 = ie div 64 \<and> ip mod 64 < ie mod 64"
        using n0 by (simp add: a_def b_def)
      with False show False by simp
    qed
    have 4: "ip + (64 - b) \<le> 64 * W" using ipd aW b by linarith
    from l b 3 4 show ?thesis unfolding b_def by simp
  qed
qed

lemma loop_step:
  assumes "p \<noteq> e"
  shows "poll_set_valid_map_loop (Suc fuel) s vm p e flag =
     (let ip = pos s p mod 2 ^ s; ie = pos s e mod 2 ^ s;
          limit = chunk_limit ip ie;
          msk = GENMASK (limit - 1) (ip mod 64);
          nxt = prod_add s p (limit - ip mod 64)
      in if flag
         then poll_set_valid_map_loop fuel s (vm[ip div 64 := vm ! (ip div 64) XOR msk]) nxt e flag
         else if vm ! (ip div 64) AND msk = (ULONG_MAX + of_bool64 (\<not> pos s p < 2 ^ s)) AND msk
              then poll_set_valid_map_loop fuel s vm nxt e flag
              else Spinning)"
  using assms
  by (simp add: Let_def unat_Q_IDX [unfolded cmdq_llq_def] Q_WRP_pos [unfolded cmdq_llq_def]
      BIT_WORD_def BITS_PER_LONG_def chunk_limit_def prod_add_def cmdq_llq_def)

lemma valid_map_bit_xor:
  assumes "sw < length vm" "limit \<le> 64" "0 < limit"
  shows "valid_map_bit (vm[sw := vm ! sw XOR GENMASK (limit - 1) sb]) j =
           (valid_map_bit vm j \<noteq> (j div 64 = sw \<and> sb \<le> j mod 64 \<and> j mod 64 < limit))"
proof -
  have h: "limit - 1 < 64" using assms by simp
  have g: "bit (GENMASK (limit - 1) sb) k \<longleftrightarrow> sb \<le> k \<and> k < limit" for k
    using bit_GENMASK [OF h, of sb k] assms by auto
  show ?thesis
    using assms(1)
    by (auto simp add: valid_map_bit_def BIT_WORD_def BITS_PER_LONG_def nth_list_update
        bit_xor_iff g simp del: One_nat_def)
qed

lemma mod_add_eq_self_imp:
  fixes x d C :: nat
  assumes "(x + d) mod C = x mod C" "d < C"
  shows "d = 0"
proof -
  have "C dvd (x + d) - x"
    using assms(1) by (subst mod_eq_dvd_iff_nat [symmetric]) simp_all
  then have "C dvd d" by simp
  with assms(2) show ?thesis using nat_dvd_not_less by blast
qed

lemma in_rng_first_chunk:
  fixes P c C j :: nat
  assumes "P mod C + c \<le> C"
  shows "in_rng C P c j \<longleftrightarrow> (P mod C \<le> j \<and> j < P mod C + c)"
proof -
  have e: "(P + i) mod C = P mod C + i" if "i < c" for i
  proof -
    have "(P + i) mod C = (P mod C + i) mod C" by (simp add: mod_simps)
    also have "\<dots> = P mod C + i" using that assms by simp
    finally show ?thesis .
  qed
  show ?thesis
  proof
    assume "in_rng C P c j"
    then obtain i where "i < c" "(P + i) mod C = j" unfolding in_rng_def by blast
    with e [of i] show "P mod C \<le> j \<and> j < P mod C + c" by linarith
  next
    assume a: "P mod C \<le> j \<and> j < P mod C + c"
    then have "j - P mod C < c" by linarith
    moreover from this have "(P + (j - P mod C)) mod C = j" using e [of "j - P mod C"] a by simp
    ultimately show "in_rng C P c j" unfolding in_rng_def by blast
  qed
qed

lemma in_rng_rest:
  fixes P c C j m :: nat
  shows "in_rng C ((P + c) mod (2 * C)) m j \<longleftrightarrow> (\<exists>i<m. (P + c + i) mod C = j)"
proof -
  have "((P + c) mod (2 * C) + i) mod C = (P + c + i) mod C" for i
  proof -
    have "((P + c) mod (2 * C) + i) mod C = (((P + c) mod (2 * C)) mod C + i) mod C"
      by (simp add: mod_simps)
    also have "((P + c) mod (2 * C)) mod C = (P + c) mod C" by (simp add: mod_mod_cancel)
    also have "((P + c) mod C + i) mod C = (P + c + i) mod C" by (simp add: mod_simps)
    finally show ?thesis .
  qed
  then show ?thesis by (simp add: in_rng_def)
qed

lemma in_rng_split:
  fixes P n c C j :: nat
  assumes "P mod C + c \<le> C" "c \<le> n" "n \<le> C"
  shows "in_rng C P n j \<longleftrightarrow>
     ((P mod C \<le> j \<and> j < P mod C + c) \<noteq> in_rng C ((P + c) mod (2 * C)) (n - c) j)"
proof -
  let ?A = "in_rng C P c j"
  let ?B = "\<exists>i<n - c. (P + c + i) mod C = j"
  have u: "in_rng C P n j \<longleftrightarrow> ?A \<or> ?B"
  proof
    assume "in_rng C P n j"
    then obtain i where i: "i < n" "(P + i) mod C = j" unfolding in_rng_def by blast
    show "?A \<or> ?B"
    proof (cases "i < c")
      case True
      with i show ?thesis unfolding in_rng_def by blast
    next
      case False
      then have "i - c < n - c" "P + c + (i - c) = P + i" using i assms by simp_all
      with i(2) show ?thesis by metis
    qed
  next
    assume "?A \<or> ?B"
    then show "in_rng C P n j"
    proof
      assume ?A
      then obtain i where "i < c" "(P + i) mod C = j" unfolding in_rng_def by blast
      moreover from this assms(2) have "i < n" by simp
      ultimately show ?thesis unfolding in_rng_def by blast
    next
      assume ?B
      then obtain i where i: "i < n - c" "(P + c + i) mod C = j" by blast
      then have "c + i < n" by simp
      moreover have "(P + (c + i)) mod C = j" using i(2) by (simp add: add.assoc)
      ultimately show ?thesis unfolding in_rng_def by blast
    qed
  qed
  have d: "\<not> (?A \<and> ?B)"
  proof
    assume "?A \<and> ?B"
    then obtain i i' where i: "i < c" "(P + i) mod C = j" and i': "i' < n - c" "(P + c + i') mod C = j"
      unfolding in_rng_def by blast
    define dd where "dd = c + i' - i"
    have "P + c + i' = (P + i) + dd" using i(1) by (simp add: dd_def)
    with i(2) i'(2) have "((P + i) + dd) mod C = (P + i) mod C" by simp
    moreover have "dd < C" using i' assms by (simp add: dd_def)
    ultimately have "dd = 0" by (rule mod_add_eq_self_imp)
    then show False using i(1) by (simp add: dd_def)
  qed
  show ?thesis
    unfolding u in_rng_rest in_rng_first_chunk [OF assms(1), symmetric] using d by blast
qed

lemma chunk_index_iff:
  fixes a b limit j :: nat
  assumes "b < limit" "limit \<le> 64"
  shows "(j div 64 = a \<and> b \<le> j mod 64 \<and> j mod 64 < limit) \<longleftrightarrow>
         (64 * a + b \<le> j \<and> j < 64 * a + limit)"
proof
  assume l: "j div 64 = a \<and> b \<le> j mod 64 \<and> j mod 64 < limit"
  have "j = 64 * (j div 64) + j mod 64" by simp
  with l show "64 * a + b \<le> j \<and> j < 64 * a + limit" by linarith
next
  assume r: "64 * a + b \<le> j \<and> j < 64 * a + limit"
  then have "64 * a \<le> j" "j < 64 * Suc a" using assms by simp_all
  then have d: "j div 64 = a" by (rule div_nat_eqI)
  have "j = 64 * (j div 64) + j mod 64" by simp
  with d have "j = 64 * a + j mod 64" by simp
  with r d show "j div 64 = a \<and> b \<le> j mod 64 \<and> j mod 64 < limit" by linarith
qed

lemma cap_64: "6 \<le> s \<Longrightarrow> (2::nat) ^ s = 64 * 2 ^ (s - 6)"
proof -
  assume "6 \<le> s"
  then have "s = 6 + (s - 6)" by simp
  then have "(2::nat) ^ s = 2 ^ 6 * 2 ^ (s - 6)" by (metis power_add)
  then show ?thesis by simp
qed

lemma chunk_facts:
  assumes s6: "6 \<le> s" and s31: "s < 31" and n0: "0 < n" and nC: "n \<le> 2 ^ s"
  shows "pos s p mod 2 ^ s mod 64 < chunk_limit (pos s p mod 2 ^ s) (pos s (prod_add s p n) mod 2 ^ s) \<and>
         chunk_limit (pos s p mod 2 ^ s) (pos s (prod_add s p n) mod 2 ^ s) \<le> 64 \<and>
         chunk_limit (pos s p mod 2 ^ s) (pos s (prod_add s p n) mod 2 ^ s) - pos s p mod 2 ^ s mod 64 \<le> n \<and>
         pos s p mod 2 ^ s +
           (chunk_limit (pos s p mod 2 ^ s) (pos s (prod_add s p n) mod 2 ^ s) - pos s p mod 2 ^ s mod 64)
           \<le> 2 ^ s \<and>
         pos s p mod 2 ^ s div 64 < 2 ^ (s - 6)"
proof -
  define W :: nat where "W = 2 ^ (s - 6)"
  define ip where "ip = pos s p mod 2 ^ s"
  define ie where "ie = pos s (prod_add s p n) mod 2 ^ s"
  have C: "(2::nat) ^ s = 64 * W" unfolding W_def using s6 by (rule cap_64)
  have ip: "ip < 64 * W" unfolding ip_def C [symmetric] by simp
  have nW: "n \<le> 64 * W" using nC C by simp
  have "ie = (pos s p + n) mod (2 * 2 ^ s) mod 2 ^ s"
    unfolding ie_def pos_prod_add [OF s31] by simp
  also have "\<dots> = (ip + n) mod 2 ^ s"
    unfolding ip_def by (rule mod_twice_then_once)
  also have "\<dots> = (if ip + n < 64 * W then ip + n else ip + n - 64 * W)"
    unfolding C using ip nW by (rule mod_add_cases)
  finally have ie: "ie = (if ip + n < 64 * W then ip + n else ip + n - 64 * W)" .
  have lim: "chunk_limit ip ie = (if ip div 64 = ie div 64 \<and> ip mod 64 < ie mod 64 then ie mod 64 else 64)"
    by (rule chunk_limit_def)
  note cb = chunk_bounds [OF ip n0 nW ie lim]
  have "ip div 64 < W" using ip by simp
  with cb have "ip mod 64 < chunk_limit ip ie \<and> chunk_limit ip ie \<le> 64 \<and>
      chunk_limit ip ie - ip mod 64 \<le> n \<and> ip + (chunk_limit ip ie - ip mod 64) \<le> 2 ^ s \<and>
      ip div 64 < 2 ^ (s - 6)"
    unfolding C W_def [symmetric] by blast
  then show ?thesis unfolding ip_def ie_def .
qed

lemma prod_add_neq:
  assumes s31: "s < 31" and n0: "0 < n" and nC: "n \<le> 2 ^ s"
  shows "p \<noteq> prod_add s p n"
proof
  assume "p = prod_add s p n"
  then have "pos s p = pos s (prod_add s p n)" by simp
  then have e: "(pos s p + n) mod 2 ^ Suc s = pos s p mod 2 ^ Suc s"
    unfolding pos_prod_add [OF s31] using pos_less [of s p] by simp
  have p2: "(0::nat) < 2 ^ s" by simp
  have "n < 2 * 2 ^ s" using nC p2 by linarith
  then have "n < 2 ^ Suc s" by simp
  with e have "n = 0" by (rule mod_add_eq_self_imp)
  with n0 show False by simp
qed

lemma set_loop_result:
  assumes "6 \<le> s" "s < 31" "length vm = 2 ^ (s - 6)" "prod_wf s p" "n \<le> 2 ^ s" "n < fuel"
  shows "\<exists>vm'. poll_set_valid_map_loop fuel s vm p (prod_add s p n) True = Completed vm' \<and>
           length vm' = length vm \<and>
           (\<forall>j<2 ^ s. valid_map_bit vm' j = (valid_map_bit vm j \<noteq> in_rng (2 ^ s) (pos s p) n j))"
  using assms
proof (induction n arbitrary: p vm fuel rule: less_induct)
  case (less n)
  note s6 = less.prems(1) and s31 = less.prems(2) and len = less.prems(3)
    and wf = less.prems(4) and nC = less.prems(5) and fu = less.prems(6)
  from fu obtain f where fuel: "fuel = Suc f" by (cases fuel) auto
  show ?case
  proof (cases "n = 0")
    case True
    have "in_rng (2 ^ s) (pos s p) 0 j = False" for j by (simp add: in_rng_def)
    then show ?thesis
      using True wf by (simp add: fuel prod_add_0)
  next
    case False
    then have n0: "0 < n" by simp
    define e where "e = prod_add s p n"
    define ip where "ip = pos s p mod 2 ^ s"
    define limit where "limit = chunk_limit ip (pos s e mod 2 ^ s)"
    define c where "c = limit - ip mod 64"
    define vm1 where "vm1 = vm[ip div 64 := vm ! (ip div 64) XOR GENMASK (limit - 1) (ip mod 64)]"
    define nxt where "nxt = prod_add s p c"
    have cf: "ip mod 64 < limit" "limit \<le> 64" "c \<le> n" "ip + c \<le> 2 ^ s" "ip div 64 < 2 ^ (s - 6)"
      using chunk_facts [OF s6 s31 n0 nC, of p]
      unfolding ip_def [symmetric] e_def [symmetric] limit_def [symmetric] c_def [symmetric]
      by blast+
    have c0: "0 < c" using cf(1) by (simp add: c_def)
    have ne: "p \<noteq> e" unfolding e_def using s31 n0 nC by (rule prod_add_neq)
    have step: "poll_set_valid_map_loop (Suc f) s vm p e True =
                poll_set_valid_map_loop f s vm1 nxt e True"
      unfolding loop_step [OF ne] Let_def
      unfolding ip_def [symmetric] limit_def [symmetric] c_def [symmetric] vm1_def nxt_def
      by simp
    have e2: "e = prod_add s nxt (n - c)"
      unfolding e_def nxt_def prod_add_add [OF s31] using cf(3) by simp
    have len1: "length vm1 = 2 ^ (s - 6)" by (simp add: vm1_def len)
    have wf1: "prod_wf s nxt" unfolding nxt_def using s31 by (rule prod_add_wf)
    have lt: "n - c < n" using c0 n0 by simp
    have nC1: "n - c \<le> 2 ^ s" using nC by simp
    have fu1: "n - c < f" using fu fuel c0 n0 by simp
    from less.IH [OF lt s6 s31 len1 wf1 nC1 fu1]
    obtain vm' where r: "poll_set_valid_map_loop f s vm1 nxt (prod_add s nxt (n - c)) True = Completed vm'"
      and l': "length vm' = length vm1"
      and b': "\<forall>j<2 ^ s. valid_map_bit vm' j = (valid_map_bit vm1 j \<noteq> in_rng (2 ^ s) (pos s nxt) (n - c) j)"
      by blast
    have pn: "pos s nxt = (pos s p + c) mod (2 * 2 ^ s)"
      unfolding nxt_def pos_prod_add [OF s31] by simp
    have b1: "valid_map_bit vm1 j =
        (valid_map_bit vm j \<noteq> (ip \<le> j \<and> j < ip + c))" for j
    proof -
      have sw: "ip div 64 < length vm" using cf(5) len by simp
      have l0: "0 < limit" using cf(1) by simp
      have ipd: "64 * (ip div 64) + ip mod 64 = ip" by simp
      have ipc: "64 * (ip div 64) + limit = ip + c"
        using cf(1) ipd unfolding c_def by linarith
      have "(j div 64 = ip div 64 \<and> ip mod 64 \<le> j mod 64 \<and> j mod 64 < limit)
          \<longleftrightarrow> (ip \<le> j \<and> j < ip + c)"
        unfolding chunk_index_iff [OF cf(1,2)] ipd ipc ..
      then show ?thesis
        unfolding vm1_def valid_map_bit_xor [OF sw cf(2) l0] by simp
    qed
    have sp: "in_rng (2 ^ s) (pos s p) n j \<longleftrightarrow>
       ((ip \<le> j \<and> j < ip + c) \<noteq> in_rng (2 ^ s) (pos s nxt) (n - c) j)" for j
      unfolding pn ip_def
      by (rule in_rng_split) (use cf(3,4) nC in \<open>simp_all add: ip_def\<close>)
    have "\<forall>j<2 ^ s. valid_map_bit vm' j = (valid_map_bit vm j \<noteq> in_rng (2 ^ s) (pos s p) n j)"
      using b' b1 sp by blast
    moreover have "poll_set_valid_map_loop fuel s vm p (prod_add s p n) True = Completed vm'"
      unfolding fuel e_def [symmetric] step using r e2 by simp
    moreover have "length vm' = length vm" using l' len1 len by simp
    ultimately show ?thesis by blast
  qed
qed

lemma chunk_check:
  assumes "sb < limit" "limit \<le> 64"
    and "\<forall>k. sb \<le> k \<and> k < limit \<longrightarrow> bit w k = v"
  shows "w AND GENMASK (limit - 1) sb = (ULONG_MAX + of_bool64 (\<not> v)) AND GENMASK (limit - 1) sb"
proof -
  have h: "limit - 1 < 64" using assms by simp
  have g: "bit (GENMASK (limit - 1) sb) k \<longleftrightarrow> sb \<le> k \<and> k < limit" for k
    using bit_GENMASK [OF h, of sb k] assms by auto
  show ?thesis
  proof (cases v)
    case True
    then have "ULONG_MAX + of_bool64 (\<not> v) = NOT 0" by (simp add: ULONG_MAX_def of_bool64_def)
    moreover have "w AND GENMASK (limit - 1) sb = GENMASK (limit - 1) sb"
      using assms(3) True by (intro bit_eqI) (auto simp add: bit_and_iff g simp del: One_nat_def)
    ultimately show ?thesis by simp
  next
    case False
    then have "ULONG_MAX + of_bool64 (\<not> v) = 0" by (simp add: ULONG_MAX_def of_bool64_def)
    moreover have "w AND GENMASK (limit - 1) sb = 0"
      using assms(3) False by (intro bit_eqI) (auto simp add: bit_and_iff g simp del: One_nat_def)
    ultimately show ?thesis by simp
  qed
qed

lemma pos_chunk:
  fixes P C c i :: nat
  assumes "0 < C" "P < 2 * C" "P mod C + c \<le> C" "i < c"
  shows "(P + i) mod (2 * C) = P + i" "(P + i) mod C = P mod C + i" "P + i < C \<longleftrightarrow> P < C"
proof -
  have P: "P = (if P < C then P mod C else C + P mod C)"
  proof (cases "P < C")
    case True then show ?thesis by simp
  next
    case False
    then have "P - C < C" using assms(2) by simp
    then have "(P - C) mod C = P - C" by simp
    moreover have "(P - C) mod C = P mod C" using False by (simp add: le_mod_geq)
    ultimately show ?thesis using False by simp
  qed
  have lt: "P + i < 2 * C" using P assms(3,4) by (auto split: if_splits)
  then show "(P + i) mod (2 * C) = P + i" by simp
  have "(P + i) mod C = (P mod C + i) mod C" by (simp add: mod_simps)
  also have "\<dots> = P mod C + i" using assms(3,4) by simp
  finally show "(P + i) mod C = P mod C + i" .
  show "P + i < C \<longleftrightarrow> P < C" using P assms(3,4) by (auto split: if_splits)
qed

lemma poll_loop_result:
  assumes "6 \<le> s" "s < 31" "length vm = 2 ^ (s - 6)" "prod_wf s p" "n \<le> 2 ^ s" "n < fuel"
    and "\<forall>i<n. valid_map_bit vm ((pos s p + i) mod 2 ^ Suc s mod 2 ^ s) =
                 ((pos s p + i) mod 2 ^ Suc s < 2 ^ s)"
  shows "poll_set_valid_map_loop fuel s vm p (prod_add s p n) False = Completed vm"
  using assms
proof (induction n arbitrary: p fuel rule: less_induct)
  case (less n)
  note s6 = less.prems(1) and s31 = less.prems(2) and len = less.prems(3)
    and wf = less.prems(4) and nC = less.prems(5) and fu = less.prems(6) and bits = less.prems(7)
  from fu obtain f where fuel: "fuel = Suc f" by (cases fuel) auto
  show ?case
  proof (cases "n = 0")
    case True
    then show ?thesis using wf by (simp add: fuel prod_add_0)
  next
    case False
    then have n0: "0 < n" by simp
    define e where "e = prod_add s p n"
    define ip where "ip = pos s p mod 2 ^ s"
    define limit where "limit = chunk_limit ip (pos s e mod 2 ^ s)"
    define c where "c = limit - ip mod 64"
    define nxt where "nxt = prod_add s p c"
    have cf: "ip mod 64 < limit" "limit \<le> 64" "c \<le> n" "ip + c \<le> 2 ^ s" "ip div 64 < 2 ^ (s - 6)"
      using chunk_facts [OF s6 s31 n0 nC, of p]
      unfolding ip_def [symmetric] e_def [symmetric] limit_def [symmetric] c_def [symmetric]
      by blast+
    have c0: "0 < c" using cf(1) by (simp add: c_def)
    have ne: "p \<noteq> e" unfolding e_def using s31 n0 nC by (rule prod_add_neq)
    have C0: "(0::nat) < 2 ^ s" by simp
    have P2: "pos s p < 2 * 2 ^ s" using pos_less [of s p] by simp
    have ipc: "pos s p mod 2 ^ s + c \<le> 2 ^ s" using cf(4) by (simp add: ip_def)
    have chunk_bits: "\<forall>k. ip mod 64 \<le> k \<and> k < limit \<longrightarrow>
         bit (vm ! (ip div 64)) k = (pos s p < 2 ^ s)"
    proof (intro allI impI)
      fix k assume k: "ip mod 64 \<le> k \<and> k < limit"
      define i where "i = k - ip mod 64"
      have ic: "i < c" using k unfolding i_def c_def by linarith
      then have "i < n" using cf(3) by simp
      with bits have b: "valid_map_bit vm ((pos s p + i) mod 2 ^ Suc s mod 2 ^ s) =
                 ((pos s p + i) mod 2 ^ Suc s < 2 ^ s)" by blast
      note pc = pos_chunk [OF C0 P2 ipc ic]
      have b2: "valid_map_bit vm (ip + i) = (pos s p < 2 ^ s)"
        using b pc by (simp add: ip_def)
      have ipd: "64 * (ip div 64) + ip mod 64 = ip" by simp
      have "ip + i = 64 * (ip div 64) + k" using k ipd unfolding i_def by linarith
      moreover have "k < 64" using k cf(2) by simp
      ultimately have "(ip + i) div 64 = ip div 64" "(ip + i) mod 64 = k" by simp_all
      then have "valid_map_bit vm (ip + i) = bit (vm ! (ip div 64)) k"
        by (simp add: valid_map_bit_def BIT_WORD_def BITS_PER_LONG_def)
      with b2 show "bit (vm ! (ip div 64)) k = (pos s p < 2 ^ s)" by simp
    qed
    have chk: "vm ! (ip div 64) AND GENMASK (limit - 1) (ip mod 64) =
       (ULONG_MAX + of_bool64 (\<not> pos s p < 2 ^ s)) AND GENMASK (limit - 1) (ip mod 64)"
      using cf(1,2) chunk_bits by (rule chunk_check)
    have step: "poll_set_valid_map_loop (Suc f) s vm p e False =
                poll_set_valid_map_loop f s vm nxt e False"
      unfolding loop_step [OF ne] Let_def
      unfolding ip_def [symmetric] limit_def [symmetric] c_def [symmetric] nxt_def
      using chk by simp
    have e2: "e = prod_add s nxt (n - c)"
      unfolding e_def nxt_def prod_add_add [OF s31] using cf(3) by simp
    have wf1: "prod_wf s nxt" unfolding nxt_def using s31 by (rule prod_add_wf)
    have lt: "n - c < n" using c0 n0 by simp
    have nC1: "n - c \<le> 2 ^ s" using nC by simp
    have fu1: "n - c < f" using fu fuel c0 n0 by simp
    have pn: "pos s nxt = (pos s p + c) mod 2 ^ Suc s"
      unfolding nxt_def by (rule pos_prod_add [OF s31])
    have bits1: "\<forall>i<n - c. valid_map_bit vm ((pos s nxt + i) mod 2 ^ Suc s mod 2 ^ s) =
                 ((pos s nxt + i) mod 2 ^ Suc s < 2 ^ s)"
    proof (intro allI impI)
      fix i assume "i < n - c"
      then have "c + i < n" by simp
      with bits have "valid_map_bit vm ((pos s p + (c + i)) mod 2 ^ Suc s mod 2 ^ s) =
                 ((pos s p + (c + i)) mod 2 ^ Suc s < 2 ^ s)" by blast
      moreover have "(pos s nxt + i) mod 2 ^ Suc s = (pos s p + (c + i)) mod 2 ^ Suc s"
        unfolding pn by (simp add: mod_simps add.assoc)
      ultimately show "valid_map_bit vm ((pos s nxt + i) mod 2 ^ Suc s mod 2 ^ s) =
                 ((pos s nxt + i) mod 2 ^ Suc s < 2 ^ s)" by simp
    qed
    from less.IH [OF lt s6 s31 len wf1 nC1 fu1 bits1]
    have "poll_set_valid_map_loop f s vm nxt (prod_add s nxt (n - c)) False = Completed vm" .
    then show ?thesis
      unfolding fuel e_def [symmetric] step using e2 by simp
  qed
qed

lemma idx_prod_add:
  assumes "s < 31"
  shows "unat (Q_IDX (cmdq_llq s x) (prod_add s p i)) = (pos s p + i) mod 2 ^ s"
proof -
  have "unat (Q_IDX (cmdq_llq s x) (prod_add s p i)) = (pos s p + i) mod (2 * 2 ^ s) mod 2 ^ s"
    unfolding unat_Q_IDX pos_prod_add [OF assms] by simp
  also have "\<dots> = (pos s p + i) mod 2 ^ s" by (simp add: mod_mod_cancel)
  finally show ?thesis .
qed

lemma in_rng_idx:
  assumes "s < 31"
  shows "in_rng (2 ^ s) (pos s p) n j \<longleftrightarrow>
           (\<exists>i<n. unat (Q_IDX (cmdq_llq s p) (prod_add s p i)) = j)"
  unfolding in_rng_def idx_prod_add [OF assms] ..

lemma slot_valid_alt:
  assumes "s < 31"
  shows "slot_valid s vm (prod_add s p i) \<longleftrightarrow>
     valid_map_bit vm ((pos s p + i) mod 2 ^ Suc s mod 2 ^ s) = ((pos s p + i) mod 2 ^ Suc s < 2 ^ s)"
  unfolding slot_valid_def unat_Q_IDX Q_WRP_pos pos_prod_add [OF assms] ..

lemma next_wrap:
  fixes P i C :: nat
  assumes "0 < C"
  shows "(P + (C + i)) mod (2 * C) mod C = (P + i) mod (2 * C) mod C"
    and "(P + (C + i)) mod (2 * C) < C \<longleftrightarrow> \<not> (P + i) mod (2 * C) < C"
proof -
  define x where "x = (P + i) mod (2 * C)"
  have x: "x < 2 * C" using assms by (simp add: x_def)
  have "(P + (C + i)) mod (2 * C) = (x + C) mod (2 * C)"
    unfolding x_def by (simp add: mod_simps ac_simps)
  also have "\<dots> = (if x < C then x + C else x - C)"
    using x by (auto simp add: mod_if)
  finally have e: "(P + (C + i)) mod (2 * C) = (if x < C then x + C else x - C)" .
  show "(P + (C + i)) mod (2 * C) mod C = (P + i) mod (2 * C) mod C"
    unfolding e x_def [symmetric] using x by (auto simp add: le_mod_geq)
  show "(P + (C + i)) mod (2 * C) < C \<longleftrightarrow> \<not> (P + i) mod (2 * C) < C"
    unfolding e x_def [symmetric] using x by auto
qed

lemma valid_map_eqI:
  assumes "length vm1 = W" "length vm2 = W"
    and "\<forall>j<64 * W. valid_map_bit vm1 j = valid_map_bit vm2 j"
  shows "vm1 = vm2"
proof (rule nth_equalityI)
  show "length vm1 = length vm2" using assms by simp
  fix w assume w: "w < length vm1"
  show "vm1 ! w = vm2 ! w"
  proof (rule bit_eqI)
    fix k assume "possible_bit TYPE(u64) k"
    then have k: "k < 64" by (simp add: possible_bit_word)
    have j: "64 * w + k < 64 * W" using w k assms(1) by simp
    have "(64 * w + k) div 64 = w" "(64 * w + k) mod 64 = k" using k by simp_all
    with assms(3) [rule_format, OF j] show "bit (vm1 ! w) k = bit (vm2 ! w) k"
      by (simp add: valid_map_bit_def BIT_WORD_def BITS_PER_LONG_def)
  qed
qed

lemma zero_map_invalid:
  assumes "6 \<le> s"
  shows "slot_valid s (replicate (2 ^ (s - 6)) 0) p \<longleftrightarrow> Q_WRP (cmdq_llq s p) p \<noteq> 0"
proof -
  let ?i = "unat (Q_IDX (cmdq_llq s p) p)"
  have "?i < 2 ^ s" unfolding unat_Q_IDX by simp
  then have "?i < 64 * 2 ^ (s - 6)" using cap_64 [OF assms] by simp
  then have "?i div 64 < 2 ^ (s - 6)" by simp
  then have "valid_map_bit (replicate (2 ^ (s - 6)) 0) ?i = False"
    by (simp add: valid_map_bit_def BIT_WORD_def BITS_PER_LONG_def)
  then show ?thesis unfolding slot_valid_def by simp
qed

text \<open>
  A command queue of 64 entries in its second lap: the bits of slots 0 to 2 are still
  set from the first lap, producers have reserved slots 60 to 63 and 0 to 2.
\<close>

text \<open>
  Claim C2.  For a command queue of at least 64 entries (shift from 6 to 30), a well-formed
  start index and a range of \<open>n\<close> slots, at most one revolution, whose slots are all
  invalid under their producer indices: \<^verbatim>\<open>arm_smmu_cmdq_set_valid_map\<close> returns, having
  flipped exactly the bits of the slots of the range, so that every slot of the range is
  valid under its producer index, and \<^verbatim>\<open>arm_smmu_cmdq_poll_valid_map\<close> on the same range
  then returns without waiting.  Under the next wrap the same slots are invalid again,
  and marking them under the next wrap gives back the bitmap as it was.  A zeroed bitmap
  makes a slot valid exactly under indices with the wrap bit set, so every slot is
  invalid for wrap 0.
\<close>

theorem valid_map_set_then_poll:
  assumes s6: "6 \<le> max_n_shift (q_llq (cmdq_q cmdq))"
    and s31: "max_n_shift (q_llq (cmdq_q cmdq)) < 31"
    and len: "length (cmdq_valid_map cmdq) = 2 ^ (max_n_shift (q_llq (cmdq_q cmdq)) - 6)"
    and wf: "prod_wf (max_n_shift (q_llq (cmdq_q cmdq))) sprod"
    and nC: "n \<le> 2 ^ max_n_shift (q_llq (cmdq_q cmdq))"
    and e: "eprod = prod_add (max_n_shift (q_llq (cmdq_q cmdq))) sprod n"
    and pre: "\<forall>i<n. \<not> slot_valid (max_n_shift (q_llq (cmdq_q cmdq))) (cmdq_valid_map cmdq)
                       (prod_add (max_n_shift (q_llq (cmdq_q cmdq))) sprod i)"
    and fu: "n < fuel"
  shows "\<exists>vm'.
     arm_smmu_cmdq_set_valid_map fuel cmdq sprod eprod = Completed vm' \<and>
     length vm' = length (cmdq_valid_map cmdq) \<and>
     (\<forall>j<2 ^ max_n_shift (q_llq (cmdq_q cmdq)).
        valid_map_bit vm' j =
          (valid_map_bit (cmdq_valid_map cmdq) j \<noteq>
           (\<exists>i<n. unat (Q_IDX (cmdq_llq (max_n_shift (q_llq (cmdq_q cmdq))) sprod)
                          (prod_add (max_n_shift (q_llq (cmdq_q cmdq))) sprod i)) = j))) \<and>
     (\<forall>i<n. slot_valid (max_n_shift (q_llq (cmdq_q cmdq))) vm'
               (prod_add (max_n_shift (q_llq (cmdq_q cmdq))) sprod i)) \<and>
     arm_smmu_cmdq_poll_valid_map fuel (cmdq\<lparr>cmdq_valid_map := vm'\<rparr>) sprod eprod = Completed vm' \<and>
     (\<forall>i<n. \<not> slot_valid (max_n_shift (q_llq (cmdq_q cmdq))) vm'
               (prod_add (max_n_shift (q_llq (cmdq_q cmdq))) sprod
                  (2 ^ max_n_shift (q_llq (cmdq_q cmdq)) + i))) \<and>
     arm_smmu_cmdq_set_valid_map fuel (cmdq\<lparr>cmdq_valid_map := vm'\<rparr>)
        (prod_add (max_n_shift (q_llq (cmdq_q cmdq))) sprod (2 ^ max_n_shift (q_llq (cmdq_q cmdq))))
        (prod_add (max_n_shift (q_llq (cmdq_q cmdq))) eprod (2 ^ max_n_shift (q_llq (cmdq_q cmdq))))
       = Completed (cmdq_valid_map cmdq) \<and>
     (\<forall>p. slot_valid (max_n_shift (q_llq (cmdq_q cmdq)))
            (replicate (2 ^ (max_n_shift (q_llq (cmdq_q cmdq)) - 6)) 0) p \<longleftrightarrow>
          Q_WRP (cmdq_llq (max_n_shift (q_llq (cmdq_q cmdq))) p) p \<noteq> 0)"
proof -
  define s where "s = max_n_shift (q_llq (cmdq_q cmdq))"
  define vm where "vm = cmdq_valid_map cmdq"
  note a = s6 [folded s_def] s31 [folded s_def] len [folded s_def vm_def] wf [folded s_def]
    nC [folded s_def] pre [folded s_def vm_def]
  have C0: "(0::nat) < 2 ^ s" by simp
  from set_loop_result [OF a(1) a(2) a(3) a(4) a(5) fu]
  obtain vm' where r: "poll_set_valid_map_loop fuel s vm sprod (prod_add s sprod n) True = Completed vm'"
    and l': "length vm' = length vm"
    and b': "\<forall>j<2 ^ s. valid_map_bit vm' j = (valid_map_bit vm j \<noteq> in_rng (2 ^ s) (pos s sprod) n j)"
    by blast
  have 1: "arm_smmu_cmdq_set_valid_map fuel cmdq sprod eprod = Completed vm'"
    using r by (simp add: arm_smmu_cmdq_set_valid_map_def arm_smmu_cmdq_poll_set_valid_map_def
        s_def vm_def e)
  have 3: "\<forall>j<2 ^ s. valid_map_bit vm' j =
          (valid_map_bit vm j \<noteq> (\<exists>i<n. unat (Q_IDX (cmdq_llq s sprod) (prod_add s sprod i)) = j))"
    using b' unfolding in_rng_idx [OF a(2)] .
  have flip: "valid_map_bit vm' ((pos s sprod + i) mod 2 ^ s) =
               (\<not> valid_map_bit vm ((pos s sprod + i) mod 2 ^ s))" if "i < n" for i
  proof -
    have "in_rng (2 ^ s) (pos s sprod) n ((pos s sprod + i) mod 2 ^ s)"
      using that unfolding in_rng_def by blast
    moreover have "(pos s sprod + i) mod 2 ^ s < 2 ^ s" by simp
    ultimately show ?thesis using b' by simp
  qed
  have mm: "(pos s sprod + i) mod 2 ^ Suc s mod 2 ^ s = (pos s sprod + i) mod 2 ^ s" for i
    by (simp add: mod_mod_cancel)
  have bits: "\<forall>i<n. valid_map_bit vm' ((pos s sprod + i) mod 2 ^ Suc s mod 2 ^ s) =
                 ((pos s sprod + i) mod 2 ^ Suc s < 2 ^ s)"
  proof (intro allI impI)
    fix i assume i: "i < n"
    with a(6) have "\<not> slot_valid s vm (prod_add s sprod i)" by blast
    then have "valid_map_bit vm ((pos s sprod + i) mod 2 ^ Suc s mod 2 ^ s) \<noteq>
       ((pos s sprod + i) mod 2 ^ Suc s < 2 ^ s)"
      unfolding slot_valid_alt [OF a(2)] .
    then show "valid_map_bit vm' ((pos s sprod + i) mod 2 ^ Suc s mod 2 ^ s) =
                 ((pos s sprod + i) mod 2 ^ Suc s < 2 ^ s)"
      unfolding mm flip [OF i] by blast
  qed
  have 4: "\<forall>i<n. slot_valid s vm' (prod_add s sprod i)"
    using bits unfolding slot_valid_alt [OF a(2)] .
  have len': "length vm' = 2 ^ (s - 6)" using l' a(3) by simp
  have "poll_set_valid_map_loop fuel s vm' sprod (prod_add s sprod n) False = Completed vm'"
    using a(1) a(2) len' a(4) a(5) fu bits by (rule poll_loop_result)
  then have 5: "arm_smmu_cmdq_poll_valid_map fuel (cmdq\<lparr>cmdq_valid_map := vm'\<rparr>) sprod eprod
      = Completed vm'"
    by (simp add: arm_smmu_cmdq_poll_valid_map_def arm_smmu_cmdq_poll_set_valid_map_def s_def e)
  have 6: "\<forall>i<n. \<not> slot_valid s vm' (prod_add s sprod (2 ^ s + i))"
  proof (intro allI impI)
    fix i assume i: "i < n"
    note nw = next_wrap [OF C0, of "pos s sprod" i]
    have p2: "(2::nat) ^ Suc s = 2 * 2 ^ s" by simp
    from bits i have "valid_map_bit vm' ((pos s sprod + i) mod 2 ^ Suc s mod 2 ^ s) =
                 ((pos s sprod + i) mod 2 ^ Suc s < 2 ^ s)" by blast
    then show "\<not> slot_valid s vm' (prod_add s sprod (2 ^ s + i))"
      unfolding slot_valid_alt [OF a(2)] p2 nw by simp
  qed
  define p2 where "p2 = prod_add s sprod (2 ^ s)"
  have wf2: "prod_wf s p2" unfolding p2_def using a(2) by (rule prod_add_wf)
  have e2: "prod_add s eprod (2 ^ s) = prod_add s p2 n"
    unfolding e s_def [symmetric] p2_def prod_add_add [OF a(2)] by (simp add: add.commute)
  from set_loop_result [OF a(1) a(2) len' wf2 a(5) fu]
  obtain vm2 where r2: "poll_set_valid_map_loop fuel s vm' p2 (prod_add s p2 n) True = Completed vm2"
    and l2: "length vm2 = length vm'"
    and b2: "\<forall>j<2 ^ s. valid_map_bit vm2 j = (valid_map_bit vm' j \<noteq> in_rng (2 ^ s) (pos s p2) n j)"
    by blast
  have same: "in_rng (2 ^ s) (pos s p2) n j = in_rng (2 ^ s) (pos s sprod) n j" for j
  proof -
    have "(pos s p2 + i) mod 2 ^ s = (pos s sprod + i) mod 2 ^ s" for i
    proof -
      have "(pos s p2 + i) mod 2 ^ s = ((pos s sprod + 2 ^ s) mod (2 * 2 ^ s) + i) mod 2 ^ s"
        unfolding p2_def pos_prod_add [OF a(2)] by simp
      also have "\<dots> = ((pos s sprod + 2 ^ s) mod (2 * 2 ^ s) mod 2 ^ s + i) mod 2 ^ s"
        by (simp add: mod_simps)
      also have "(pos s sprod + 2 ^ s) mod (2 * 2 ^ s) mod 2 ^ s = (pos s sprod + 2 ^ s) mod 2 ^ s"
        by (simp add: mod_mod_cancel)
      also have "((pos s sprod + 2 ^ s) mod 2 ^ s + i) mod 2 ^ s = (pos s sprod + i) mod 2 ^ s"
        by (simp add: mod_simps)
      finally show ?thesis .
    qed
    then show ?thesis unfolding in_rng_def by simp
  qed
  have "\<forall>j<64 * 2 ^ (s - 6). valid_map_bit vm2 j = valid_map_bit vm j"
    using b2 b' unfolding same cap_64 [OF a(1), symmetric] by blast
  with l2 len' a(3) have "vm2 = vm" by (intro valid_map_eqI [where W = "2 ^ (s - 6)"]) simp_all
  with r2 have 7: "arm_smmu_cmdq_set_valid_map fuel (cmdq\<lparr>cmdq_valid_map := vm'\<rparr>)
        (prod_add s sprod (2 ^ s)) (prod_add s eprod (2 ^ s)) = Completed (cmdq_valid_map cmdq)"
    by (simp add: arm_smmu_cmdq_set_valid_map_def arm_smmu_cmdq_poll_set_valid_map_def
        s_def [symmetric] e2 p2_def [symmetric] vm_def)
  have 8: "\<forall>p. slot_valid s (replicate (2 ^ (s - 6)) 0) p \<longleftrightarrow> Q_WRP (cmdq_llq s p) p \<noteq> 0"
    using zero_map_invalid [OF a(1)] by blast
  from 1 l' 3 4 5 6 7 8 show ?thesis
    unfolding s_def vm_def by blast
qed

theorem valid_map_set_then_poll_witness:
  "6 \<le> max_n_shift (q_llq (cmdq_q example_vm_cmdq)) \<and>
   max_n_shift (q_llq (cmdq_q example_vm_cmdq)) < 31 \<and>
   length (cmdq_valid_map example_vm_cmdq) = 2 ^ (max_n_shift (q_llq (cmdq_q example_vm_cmdq)) - 6) \<and>
   prod_wf 6 60 \<and> prod_add 6 60 7 = 67 \<and>
   \<not> slot_valid 6 (cmdq_valid_map example_vm_cmdq) (prod_add 6 60 0) \<and>
   \<not> slot_valid 6 (cmdq_valid_map example_vm_cmdq) (prod_add 6 60 6) \<and>
   arm_smmu_cmdq_set_valid_map 8 example_vm_cmdq 60 67 = Completed [0xF000000000000000] \<and>
   arm_smmu_cmdq_poll_valid_map 8 (example_vm_cmdq\<lparr>cmdq_valid_map := [0xF000000000000000]\<rparr>) 60 67
     = Completed [0xF000000000000000] \<and>
   arm_smmu_cmdq_poll_valid_map 8 example_vm_cmdq 60 67 = Spinning"
proof -
  have s: "max_n_shift (q_llq (cmdq_q example_vm_cmdq)) = 6"
    and v: "cmdq_valid_map example_vm_cmdq = [7]"
    by (simp_all add: example_vm_cmdq_def)
  have h1: "6 \<le> max_n_shift (q_llq (cmdq_q example_vm_cmdq))" by (simp add: s)
  have h2: "max_n_shift (q_llq (cmdq_q example_vm_cmdq)) < 31" by (simp add: s)
  have h3: "length (cmdq_valid_map example_vm_cmdq) =
      2 ^ (max_n_shift (q_llq (cmdq_q example_vm_cmdq)) - 6)" by (simp add: s v)
  have wf: "prod_wf 6 60" by code_simp
  have h4: "prod_wf (max_n_shift (q_llq (cmdq_q example_vm_cmdq))) 60" unfolding s by (rule wf)
  have h5: "(7::nat) \<le> 2 ^ max_n_shift (q_llq (cmdq_q example_vm_cmdq))" by (simp add: s)
  have pa: "prod_add 6 60 7 = 67" by code_simp
  have h6: "(67::u32) = prod_add (max_n_shift (q_llq (cmdq_q example_vm_cmdq))) 60 7"
    unfolding s pa ..
  have "\<forall>i\<in>set [0..<7]. \<not> slot_valid 6 [7] (prod_add 6 60 i)" by code_simp
  then have pre: "\<forall>i<7. \<not> slot_valid 6 [7] (prod_add 6 60 i)" by simp
  have h7: "\<forall>i<7. \<not> slot_valid (max_n_shift (q_llq (cmdq_q example_vm_cmdq)))
       (cmdq_valid_map example_vm_cmdq)
       (prod_add (max_n_shift (q_llq (cmdq_q example_vm_cmdq))) 60 i)"
    unfolding s v by (rule pre)
  have h8: "(7::nat) < 8" by simp
  have ev: "arm_smmu_cmdq_set_valid_map 8 example_vm_cmdq 60 67 = Completed [0xF000000000000000]"
    by code_simp
  have sp: "arm_smmu_cmdq_poll_valid_map 8 example_vm_cmdq 60 67 = Spinning"
    by code_simp
  from valid_map_set_then_poll [OF h1 h2 h3 h4 h5 h6 h7 h8]
  obtain vm' where "arm_smmu_cmdq_set_valid_map 8 example_vm_cmdq 60 67 = Completed vm'"
    and "arm_smmu_cmdq_poll_valid_map 8 (example_vm_cmdq\<lparr>cmdq_valid_map := vm'\<rparr>) 60 67 = Completed vm'"
    by blast
  with ev have "arm_smmu_cmdq_poll_valid_map 8
      (example_vm_cmdq\<lparr>cmdq_valid_map := [0xF000000000000000]\<rparr>) 60 67
     = Completed [0xF000000000000000]" by simp
  moreover from pre have "\<not> slot_valid 6 [7] (prod_add 6 60 0)"
    and "\<not> slot_valid 6 [7] (prod_add 6 60 6)" by simp_all
  ultimately show ?thesis using h1 h2 h3 wf pa ev sp unfolding v by blast
qed

end
